theory Spec2Isabelle
  imports Main
begin

section \<open>JavaScript strings\<close>

text \<open>
  A JavaScript string is a sequence of UTF-16 code units. A code unit is modelled as a
  natural number, so that the white space and line terminator characters beyond Latin-1,
  which \<open>trim\<close>, \<open>\s\<close> and \<open>.\<close> distinguish, are part of the model. A string literal
  \<open>''abc''\<close> is the list of its character codes, \<open>str ''abc''\<close>.
\<close>

type_synonym jsstring = "nat list"

abbreviation (input) str :: "string \<Rightarrow> jsstring" where
  "str s \<equiv> map of_char s"

abbreviation (input) chr :: "char \<Rightarrow> nat" where
  "chr c \<equiv> of_char c"

text \<open>The characters \<open>trim\<close> strips and \<open>\s\<close> matches: WhiteSpace and LineTerminator.\<close>

definition isLineTerminator :: "nat \<Rightarrow> bool" where
  "isLineTerminator c = (c = 10 \<or> c = 13 \<or> c = 8232 \<or> c = 8233)"

definition isWhiteSpace :: "nat \<Rightarrow> bool" where
  "isWhiteSpace c =
     (c = 9 \<or> c = 11 \<or> c = 12 \<or> c = 32 \<or> c = 160 \<or> c = 5760 \<or> (8192 \<le> c \<and> c \<le> 8202)
      \<or> c = 8239 \<or> c = 8287 \<or> c = 12288 \<or> c = 65279 \<or> isLineTerminator c)"

definition trim :: "jsstring \<Rightarrow> jsstring" where
  "trim s = rev (dropWhile isWhiteSpace (rev (dropWhile isWhiteSpace s)))"

text \<open>\<open>s.split(sep)\<close> for a one-character separator, and \<open>parts.join(sep)\<close>.\<close>

fun splitOn :: "'a \<Rightarrow> 'a list \<Rightarrow> 'a list list" where
  "splitOn sep [] = [[]]"
| "splitOn sep (c # cs) =
     (if c = sep then [] # splitOn sep cs
      else (case splitOn sep cs of [] \<Rightarrow> [[c]] | p # ps \<Rightarrow> (c # p) # ps))"

fun join :: "'a list \<Rightarrow> 'a list list \<Rightarrow> 'a list" where
  "join sep [] = []"
| "join sep [x] = x"
| "join sep (x # y # ys) = x @ sep @ join sep (y # ys)"

definition startsWith :: "'a list \<Rightarrow> 'a list \<Rightarrow> bool" where
  "startsWith s p = (take (length p) s = p)"

text \<open>\<open>s[i]\<close> is \<open>undefined\<close> out of range; \<open>s[i] ?? d\<close> supplies the default.\<close>

definition charAt :: "'a list \<Rightarrow> nat \<Rightarrow> 'a option" where
  "charAt s i = (if i < length s then Some (s ! i) else None)"

definition orElse :: "'a option \<Rightarrow> 'a \<Rightarrow> 'a" where
  "orElse v d = (case v of None \<Rightarrow> d | Some x \<Rightarrow> x)"

section \<open>Regular expressions\<close>

text \<open>
  The regular expressions of the source use character classes, concatenation, an optional
  group, \<open>+\<close> and a bounded repetition; none has a flag, and each is anchored at both ends,
  so \<open>test\<close> decides whether the whole string belongs to the language. The matcher
  works by derivatives.
\<close>

datatype 'a rexp =
    Zero
  | One
  | Atom "'a \<Rightarrow> bool"
  | Alt "'a rexp" "'a rexp"
  | Seq "'a rexp" "'a rexp"
  | Star "'a rexp"

primrec nullable :: "'a rexp \<Rightarrow> bool" where
  "nullable Zero = False"
| "nullable One = True"
| "nullable (Atom p) = False"
| "nullable (Alt r s) = (nullable r \<or> nullable s)"
| "nullable (Seq r s) = (nullable r \<and> nullable s)"
| "nullable (Star r) = True"

primrec deriv :: "'a \<Rightarrow> 'a rexp \<Rightarrow> 'a rexp" where
  "deriv c Zero = Zero"
| "deriv c One = Zero"
| "deriv c (Atom p) = (if p c then One else Zero)"
| "deriv c (Alt r s) = Alt (deriv c r) (deriv c s)"
| "deriv c (Seq r s) =
     (if nullable r then Alt (Seq (deriv c r) s) (deriv c s) else Seq (deriv c r) s)"
| "deriv c (Star r) = Seq (deriv c r) (Star r)"

primrec matches :: "'a rexp \<Rightarrow> 'a list \<Rightarrow> bool" where
  "matches r [] = nullable r"
| "matches r (c # cs) = matches (deriv c r) cs"

text \<open>\<open>r+\<close>, \<open>r?\<close> and \<open>r{lo,hi}\<close>.\<close>

definition plus1 :: "'a rexp \<Rightarrow> 'a rexp" where
  "plus1 r = Seq r (Star r)"

definition opt :: "'a rexp \<Rightarrow> 'a rexp" where
  "opt r = Alt r One"

fun repeat :: "nat \<Rightarrow> nat \<Rightarrow> 'a rexp \<Rightarrow> 'a rexp" where
  "repeat 0 0 r = One"
| "repeat 0 (Suc hi) r = Alt (Seq r (repeat 0 hi r)) One"
| "repeat (Suc lo) 0 r = Zero"
| "repeat (Suc lo) (Suc hi) r = Seq r (repeat lo hi r)"

text \<open>The language of a regular expression: what the matcher is measured against.\<close>

definition conc :: "'a list set \<Rightarrow> 'a list set \<Rightarrow> 'a list set" where
  "conc A B = {u @ v | u v. u \<in> A \<and> v \<in> B}"

inductive_set star :: "'a list set \<Rightarrow> 'a list set" for A :: "'a list set" where
  star_nil: "[] \<in> star A"
| star_app: "u \<in> A \<Longrightarrow> v \<in> star A \<Longrightarrow> u @ v \<in> star A"

primrec lang :: "'a rexp \<Rightarrow> 'a list set" where
  "lang Zero = {}"
| "lang One = {[]}"
| "lang (Atom p) = {[c] | c. p c}"
| "lang (Alt r s) = lang r \<union> lang s"
| "lang (Seq r s) = conc (lang r) (lang s)"
| "lang (Star r) = star (lang r)"

section \<open>The data model\<close>

record Hunk =
  hunk_id :: jsstring
  hunk_file :: jsstring
  fileHeader :: "jsstring list"
  hunkLines :: "jsstring list"
  patchText :: jsstring
  stats_add :: nat
  stats_del :: nat

datatype FileOpKind = Add | Delete | Rename | Copy | Binary | Typechange

record FileOp =
  op_id :: jsstring
  kind :: FileOpKind
  path :: jsstring
  origPath :: "jsstring option"

record PlanCommit =
  message :: jsstring
  body :: "jsstring option"
  hunks :: "jsstring list"
  ops :: "jsstring list option"

record Plan =
  commits :: "PlanCommit list"

text \<open>Every \<open>throw\<close> of the source is a value of this type.\<close>

datatype error =
    EmptyPlan
  | EmptyCommitMessage
  | EmptyCommitNotAllowed jsstring
  | UnknownHunkId jsstring
  | DuplicateHunkId jsstring
  | UnknownOpId jsstring
  | DuplicateOpId jsstring
  | NotConventionalCommit jsstring
  | MissingItems "jsstring list" "jsstring list"
  | ModelDidNotReturnJson
  | UnmergedNotSupported
  | UnknownHunkIdInPlan jsstring
  | UnknownOpIdInPlan jsstring
  | RenameMissingOrig jsstring
  | NothingStaged jsstring
  | GitCommandFailed "jsstring list"

section \<open>Plan validation\<close>

text \<open>
  \<open>isConventionalCommitHeader\<close>: the test of the trimmed message against
  \<^verbatim>\<open>/^[a-z]+(\([^)]+\))?:\s.{1,72}$/\<close>.
\<close>

definition isLower :: "nat \<Rightarrow> bool" where
  "isLower c = (chr CHR ''a'' \<le> c \<and> c \<le> chr CHR ''z'')"

definition headerRegex :: "nat rexp" where
  "headerRegex =
     Seq (plus1 (Atom isLower))
      (Seq (opt (Seq (Atom (\<lambda>c. c = chr CHR ''(''))
                  (Seq (plus1 (Atom (\<lambda>c. c \<noteq> chr CHR '')'')))
                       (Atom (\<lambda>c. c = chr CHR '')'')))))
        (Seq (Atom (\<lambda>c. c = chr CHR '':''))
          (Seq (Atom isWhiteSpace)
               (repeat 1 72 (Atom (\<lambda>c. \<not> isLineTerminator c))))))"

definition isConventionalCommitHeader :: "jsstring \<Rightarrow> bool" where
  "isConventionalCommitHeader s = matches headerRegex (trim s)"

text \<open>
  The two inner loops of \<open>validatePlan\<close> have one shape: each id must belong to the
  universe and must not have been seen; it is then added to the seen set. A \<open>Set\<close> is kept
  as the list of its elements in insertion order. \<open>unknown\<close> and \<open>duplicate\<close> are the
  errors the loop throws.
\<close>

fun checkIds ::
  "(jsstring \<Rightarrow> error) \<Rightarrow> (jsstring \<Rightarrow> error) \<Rightarrow> jsstring list \<Rightarrow> jsstring list \<Rightarrow>
   jsstring list \<Rightarrow> error + jsstring list" where
  "checkIds unknown duplicate universe [] seen = Inr seen"
| "checkIds unknown duplicate universe (i # ids) seen =
     (if i \<notin> set universe then Inl (unknown i)
      else if i \<in> set seen then Inl (duplicate i)
      else checkIds unknown duplicate universe ids (seen @ [i]))"

text \<open>
  \<open>c.ops ?? []\<close>. The field \<open>hunks\<close> is declared without \<open>?\<close>, so \<open>c.hunks ?? []\<close> is
  \<open>hunks c\<close>; likewise \<open>plan?.commits?.length\<close> and \<open>c.message?.trim()\<close> read fields that
  the types declare.
\<close>

definition opsOf :: "PlanCommit \<Rightarrow> jsstring list" where
  "opsOf c = orElse (ops c) []"

text \<open>The body of the loop over the commits, on the two seen sets.\<close>

definition validateCommit ::
  "jsstring list \<Rightarrow> jsstring list \<Rightarrow> PlanCommit \<Rightarrow> jsstring list \<times> jsstring list \<Rightarrow>
   error + (jsstring list \<times> jsstring list)" where
  "validateCommit allHunks allOps c seen =
     (if trim (message c) = [] then Inl EmptyCommitMessage
      else if \<not> (length (hunks c) + length (opsOf c) > 0)
        then Inl (EmptyCommitNotAllowed (message c))
      else (case checkIds UnknownHunkId DuplicateHunkId allHunks (hunks c) (fst seen) of
          Inl e \<Rightarrow> Inl e
        | Inr seenHunks \<Rightarrow>
           (case checkIds UnknownOpId DuplicateOpId allOps (opsOf c) (snd seen) of
              Inl e \<Rightarrow> Inl e
            | Inr seenOps \<Rightarrow>
               if \<not> isConventionalCommitHeader (message c)
               then Inl (NotConventionalCommit (message c))
               else Inr (seenHunks, seenOps))))"

fun validateCommits ::
  "jsstring list \<Rightarrow> jsstring list \<Rightarrow> PlanCommit list \<Rightarrow> jsstring list \<times> jsstring list \<Rightarrow>
   error + (jsstring list \<times> jsstring list)" where
  "validateCommits allHunks allOps [] seen = Inr seen"
| "validateCommits allHunks allOps (c # cs) seen =
     (case validateCommit allHunks allOps c seen of
        Inl e \<Rightarrow> Inl e
      | Inr seen' \<Rightarrow> validateCommits allHunks allOps cs seen')"

text \<open>\<open>new Set(xs)\<close> keeps the first occurrence of each element, in order.\<close>

fun newSet :: "'a list \<Rightarrow> 'a list" where
  "newSet [] = []"
| "newSet (x # xs) = x # filter (\<lambda>y. y \<noteq> x) (newSet xs)"

definition validatePlan :: "Plan \<Rightarrow> Hunk list \<Rightarrow> FileOp list \<Rightarrow> error + unit" where
  "validatePlan plan hs os =
     (if commits plan = [] then Inl EmptyPlan
      else
        let allHunks = newSet (map hunk_id hs);
            allOps = newSet (map op_id os)
        in (case validateCommits allHunks allOps (commits plan) ([], []) of
              Inl e \<Rightarrow> Inl e
            | Inr seen \<Rightarrow>
               let missingHunks = filter (\<lambda>i. i \<notin> set (fst seen)) allHunks;
                   missingOps = filter (\<lambda>i. i \<notin> set (snd seen)) allOps
               in if missingHunks \<noteq> [] \<or> missingOps \<noteq> []
                  then Inl (MissingItems missingHunks missingOps)
                  else Inr ()))"

section \<open>The status parser\<close>

text \<open>
  \<open>makeOp\<close> derives the id of an operation from a SHA-1 digest. The digest comes from
  \<open>node:crypto\<close>; it is the parameter \<open>sha1\<close>, the hexadecimal digest of a string.
\<close>

definition kindName :: "FileOpKind \<Rightarrow> jsstring" where
  "kindName k =
     (case k of Add \<Rightarrow> str ''add'' | Delete \<Rightarrow> str ''delete'' | Rename \<Rightarrow> str ''rename''
      | Copy \<Rightarrow> str ''copy'' | Binary \<Rightarrow> str ''binary'' | Typechange \<Rightarrow> str ''typechange'')"

definition makeOp ::
  "(jsstring \<Rightarrow> jsstring) \<Rightarrow> FileOpKind \<Rightarrow> jsstring \<Rightarrow> jsstring option \<Rightarrow> FileOp" where
  "makeOp sha1 k p orig =
     (let base = kindName k @ str ''|'' @ orElse orig [] @ str ''|'' @ p;
          i = str ''op'' @ take 10 (sha1 base)
      in \<lparr>op_id = i, kind = k, path = p, origPath = orig\<rparr>)"

record StatusResult =
  status_ops :: "FileOp list"
  unsplittablePaths :: "jsstring set"
  hasUnmerged :: bool

text \<open>\<open>ops.push(op); unsplittablePaths.add(op.path)\<close>\<close>

definition pushOp :: "FileOp \<Rightarrow> StatusResult \<Rightarrow> StatusResult" where
  "pushOp op acc =
     acc\<lparr>status_ops := status_ops acc @ [op],
         unsplittablePaths := insert (path op) (unsplittablePaths acc)\<rparr>"

text \<open>A value is truthy when it is neither \<open>undefined\<close> nor the empty string.\<close>

definition truthy :: "jsstring option \<Rightarrow> bool" where
  "truthy v = (case v of None \<Rightarrow> False | Some s \<Rightarrow> s \<noteq> [])"

text \<open>
  One iteration of the loop of \<open>parsePorcelainV2Z\<close>, on the token \<open>t = tokens[i]\<close>, with
  \<open>next = tokens[i + 1]\<close>. It returns the new state and whether the iteration consumed the
  next token too (the \<open>i++\<close> of a rename or copy record).
\<close>

definition recordStep ::
  "(jsstring \<Rightarrow> jsstring) \<Rightarrow> jsstring \<Rightarrow> jsstring option \<Rightarrow> StatusResult \<Rightarrow>
   StatusResult \<times> bool" where
  "recordStep sha1 t next acc =
     (if t = [] \<or> startsWith t (str ''#'') then (acc, False)
      else
        let kind = charAt t 0 in
        if kind = Some (chr CHR ''?'') then
          (let p = drop 2 t in (pushOp (makeOp sha1 Add p None) acc, False))
        else if kind = Some (chr CHR ''u'') then (acc\<lparr>hasUnmerged := True\<rparr>, False)
        else if kind = Some (chr CHR ''1'') then
          (let parts = splitOn (chr CHR '' '') t in
           if length parts < 9 then (acc, False)
           else
             let xy = orElse (charAt parts 1) (str ''..'');
                 x = orElse (charAt xy 0) (chr CHR ''.'');
                 y = orElse (charAt xy 1) (chr CHR ''.'');
                 p = join (str '' '') (drop 8 parts)
             in if x = chr CHR ''D'' \<or> y = chr CHR ''D''
                  then (pushOp (makeOp sha1 Delete p None) acc, False)
                else if x = chr CHR ''T'' \<or> y = chr CHR ''T''
                  then (pushOp (makeOp sha1 Typechange p None) acc, False)
                else (acc, False))
        else if kind = Some (chr CHR ''2'') then
          (let parts = splitOn (chr CHR '' '') t in
           if length parts < 10 then (acc, False)
           else
             let xScore = orElse (charAt parts 8) [];
                 action = charAt xScore 0;
                 p = join (str '' '') (drop 9 parts);
                 origPath = next;
                 skip = truthy origPath
             in if action = Some (chr CHR ''R'')
                  then (pushOp (makeOp sha1 Rename p origPath) acc, skip)
                else if action = Some (chr CHR ''C'')
                  then (pushOp (makeOp sha1 Copy p origPath) acc, skip)
                else (pushOp (makeOp sha1 Rename p origPath) acc, skip))
        else (acc, False))"

text \<open>The loop over the tokens: the list holds \<open>tokens[i]\<close>, \<open>tokens[i + 1]\<close>, ...\<close>

fun parseTokens ::
  "(jsstring \<Rightarrow> jsstring) \<Rightarrow> jsstring list \<Rightarrow> StatusResult \<Rightarrow> StatusResult" where
  "parseTokens sha1 [] acc = acc"
| "parseTokens sha1 (t # rest) acc =
     (case recordStep sha1 t (charAt rest 0) acc of
        (acc', skip) \<Rightarrow> parseTokens sha1 (if skip then drop 1 rest else rest) acc')"

definition tokensOf :: "jsstring \<Rightarrow> jsstring list" where
  "tokensOf raw = filter (\<lambda>t. t \<noteq> []) (splitOn 0 raw)"

definition parsePorcelainV2Z :: "(jsstring \<Rightarrow> jsstring) \<Rightarrow> jsstring \<Rightarrow> StatusResult" where
  "parsePorcelainV2Z sha1 raw =
     parseTokens sha1 (tokensOf raw)
       \<lparr>status_ops = [], unsplittablePaths = {}, hasUnmerged = False\<rparr>"

section \<open>Reconciliation\<close>

text \<open>
  A \<open>Map\<close> is the list of its entries in insertion order: \<open>set\<close> on a key already there
  replaces the value and keeps the position, \<open>get\<close> finds the one entry of a key.
\<close>

fun mapSet :: "'k \<Rightarrow> 'v \<Rightarrow> ('k \<times> 'v) list \<Rightarrow> ('k \<times> 'v) list" where
  "mapSet k v [] = [(k, v)]"
| "mapSet k v ((k', v') # m) =
     (if k' = k then (k, v) # m else (k', v') # mapSet k v m)"

definition newMap :: "('k \<times> 'v) list \<Rightarrow> ('k \<times> 'v) list" where
  "newMap es = foldl (\<lambda>m e. mapSet (fst e) (snd e) m) [] es"

definition dedupeOps :: "FileOp list \<Rightarrow> FileOp list" where
  "dedupeOps os = map snd (newMap (map (\<lambda>op. (op_id op, op)) os))"

text \<open>
  \<open>collectWorkingTreeSnapshot\<close>, from the output of \<open>git status\<close> on: the operations
  \<open>binaryOps\<close> and the hunks \<open>allHunks\<close> are what \<open>extractBinaryOpsFromDiff\<close> and
  \<open>parseUnifiedDiff\<close> return on the output of \<open>git diff\<close>.
\<close>

definition collectWorkingTreeSnapshot ::
  "(jsstring \<Rightarrow> jsstring) \<Rightarrow> jsstring \<Rightarrow> FileOp list \<Rightarrow> Hunk list \<Rightarrow>
   error + (Hunk list \<times> FileOp list)" where
  "collectWorkingTreeSnapshot sha1 statusRaw binaryOps allHunks =
     (let r = parsePorcelainV2Z sha1 statusRaw in
      if hasUnmerged r then Inl UnmergedNotSupported
      else
        let opsAll = dedupeOps (status_ops r @ binaryOps);
            unsplittable = foldl (\<lambda>paths op. insert (path op) paths) (unsplittablePaths r) opsAll;
            hs = filter (\<lambda>h. hunk_file h \<notin> unsplittable) allHunks
        in Inr (hs, opsAll))"

section \<open>Extraction of the JSON object\<close>

text \<open>
  The loop of \<open>extractJsonObjectBalanced\<close> over the characters from \<open>start\<close> on: the list
  holds \<open>text[i]\<close>, \<open>text[i + 1]\<close>, ...; \<open>n\<close> is \<open>i - start\<close>. It returns the length of the
  slice \<open>text.slice(start, i + 1)\<close>, or nothing when the loop runs to the end of the text.
\<close>

fun scan :: "jsstring \<Rightarrow> int \<Rightarrow> bool \<Rightarrow> bool \<Rightarrow> nat \<Rightarrow> nat option" where
  "scan [] depth inStr esc n = None"
| "scan (ch # cs) depth inStr esc n =
     (if inStr then
        (if esc then scan cs depth inStr False (n + 1)
         else if ch = chr CHR 0x5C then scan cs depth inStr True (n + 1)
         else if ch = chr CHR 0x22 then scan cs depth False esc (n + 1)
         else scan cs depth inStr esc (n + 1))
      else if ch = chr CHR 0x22 then scan cs depth True esc (n + 1)
      else if ch = chr CHR ''{'' then scan cs (depth + 1) inStr esc (n + 1)
      else if ch = chr CHR ''}'' then
        (if depth - 1 = 0 then Some (n + 1) else scan cs (depth - 1) inStr esc (n + 1))
      else scan cs depth inStr esc (n + 1))"

definition extractJsonObjectBalanced :: "jsstring \<Rightarrow> error + jsstring" where
  "extractJsonObjectBalanced text =
     (let rest = dropWhile (\<lambda>c. c \<noteq> chr CHR ''{'') text in
      if rest = [] then Inl ModelDidNotReturnJson
      else (case scan rest 0 False False 0 of
              None \<Rightarrow> Inl ModelDidNotReturnJson
            | Some len \<Rightarrow> Inr (trim (take len rest))))"

section \<open>Application of the plan\<close>

text \<open>
  The git executable is outside the program. It is a parameter: from the state of the
  world, the arguments and the standard input (if any) it gives the standard output when
  the exit code is 0, nothing when the command fails, and the next state of the world.
  A session is the world together with the log of the calls made so far: arguments,
  standard input, and whether the call succeeded.
\<close>

type_synonym 'w git = "'w \<Rightarrow> jsstring list \<Rightarrow> jsstring option \<Rightarrow> jsstring option \<times> 'w"

type_synonym gitcall = "jsstring list \<times> jsstring option \<times> bool"

type_synonym 'w session = "'w \<times> gitcall list"

definition spawnGit ::
  "'w git \<Rightarrow> jsstring list \<Rightarrow> jsstring option \<Rightarrow> 'w session \<Rightarrow> (error + jsstring) \<times> 'w session" where
  "spawnGit git args input s =
     (case git (fst s) args input of
        (None, w) \<Rightarrow> (Inl (GitCommandFailed args), (w, snd s @ [(args, input, False)]))
      | (Some out, w) \<Rightarrow> (Inr out, (w, snd s @ [(args, input, True)])))"

definition runGit ::
  "'w git \<Rightarrow> jsstring list \<Rightarrow> 'w session \<Rightarrow> (error + jsstring) \<times> 'w session" where
  "runGit git args s = spawnGit git args None s"

definition runGitWithStdin ::
  "'w git \<Rightarrow> jsstring list \<Rightarrow> jsstring \<Rightarrow> 'w session \<Rightarrow> (error + jsstring) \<times> 'w session" where
  "runGitWithStdin git args input s = spawnGit git args (Some input) s"

text \<open>\<open>new Map(entries)\<close> and its \<open>get\<close>: of two entries with one key the later one stays.\<close>

definition mapGet :: "('k \<times> 'v) list \<Rightarrow> 'k \<Rightarrow> 'v option" where
  "mapGet m k = map_of m k"

definition hunkById :: "Hunk list \<Rightarrow> jsstring \<Rightarrow> Hunk option" where
  "hunkById hs = mapGet (newMap (map (\<lambda>h. (hunk_id h, h)) hs))"

definition opById :: "FileOp list \<Rightarrow> jsstring \<Rightarrow> FileOp option" where
  "opById os = mapGet (newMap (map (\<lambda>op. (op_id op, op)) os))"

text \<open>
  Step 1: the loop that fills \<open>patchesByFile\<close>. An entry holds the header and the line
  blocks of the hunks of one file.
\<close>

type_synonym entry = "jsstring list \<times> jsstring list list"

fun groupHunks ::
  "(jsstring \<Rightarrow> Hunk option) \<Rightarrow> jsstring list \<Rightarrow> (jsstring \<times> entry) list \<Rightarrow>
   error + (jsstring \<times> entry) list" where
  "groupHunks byId [] patchesByFile = Inr patchesByFile"
| "groupHunks byId (hunkId # ids) patchesByFile =
     (case byId hunkId of
        None \<Rightarrow> Inl (UnknownHunkIdInPlan hunkId)
      | Some h \<Rightarrow>
          let e = orElse (mapGet patchesByFile (hunk_file h)) (fileHeader h, []);
              e' = (fst e, snd e @ [hunkLines h])
          in groupHunks byId ids (mapSet (hunk_file h) e' patchesByFile))"

definition patchParts :: "(jsstring \<times> entry) list \<Rightarrow> jsstring list" where
  "patchParts patchesByFile =
     concat (map (\<lambda>(f, e). [join [10] (fst e)] @ map (join [10]) (snd e) @ [[]]) patchesByFile)"

text \<open>
  \<open>replace(/\n{3,}/g, "\n\n")\<close>: from left to right, each longest run of three or more
  line feeds is replaced by two.
\<close>

function replaceNewlineRuns :: "jsstring \<Rightarrow> jsstring" where
  "replaceNewlineRuns [] = []"
| "replaceNewlineRuns (c # cs) =
     (if c = 10 \<and> take 2 cs = [10, 10]
      then [10, 10] @ replaceNewlineRuns (dropWhile (\<lambda>d. d = 10) cs)
      else c # replaceNewlineRuns cs)"
  by pat_completeness auto
termination
  by (relation "measure length") (auto intro: le_imp_less_Suc length_dropWhile_le)

definition buildPatchText :: "(jsstring \<times> entry) list \<Rightarrow> jsstring" where
  "buildPatchText patchesByFile = replaceNewlineRuns (join [10] (patchParts patchesByFile))"

definition applyArgs :: "jsstring list" where
  "applyArgs = [str ''apply'', str ''--cached'', str ''--3way'', str ''--whitespace=nowarn'', str ''-'']"

definition stageHunks ::
  "'w git \<Rightarrow> (jsstring \<Rightarrow> Hunk option) \<Rightarrow> PlanCommit \<Rightarrow> 'w session \<Rightarrow>
   (error + unit) \<times> 'w session" where
  "stageHunks git byId c s =
     (case groupHunks byId (hunks c) [] of
        Inl e \<Rightarrow> (Inl e, s)
      | Inr patchesByFile \<Rightarrow>
          let patch = buildPatchText patchesByFile in
          if trim patch \<noteq> [] then
            (case runGitWithStdin git applyArgs patch s of
               (Inl e, s') \<Rightarrow> (Inl e, s')
             | (Inr out, s') \<Rightarrow> (Inr (), s'))
          else (Inr (), s))"

text \<open>Step 2: the \<open>switch\<close> on the kind of an operation chooses the \<open>git add\<close> command.\<close>

definition opStageArgs :: "FileOp \<Rightarrow> error + jsstring list" where
  "opStageArgs op =
     (case kind op of
        Add \<Rightarrow> Inr [str ''add'', str ''--'', path op]
      | Binary \<Rightarrow> Inr [str ''add'', str ''--'', path op]
      | Typechange \<Rightarrow> Inr [str ''add'', str ''--'', path op]
      | Delete \<Rightarrow> Inr [str ''add'', str ''-u'', str ''--'', path op]
      | Rename \<Rightarrow>
          if \<not> truthy (origPath op) then Inl (RenameMissingOrig (op_id op))
          else Inr [str ''add'', str ''-A'', str ''--'', orElse (origPath op) [], path op]
      | Copy \<Rightarrow> Inr [str ''add'', str ''--'', path op])"

fun stageOps ::
  "'w git \<Rightarrow> (jsstring \<Rightarrow> FileOp option) \<Rightarrow> jsstring list \<Rightarrow> 'w session \<Rightarrow>
   (error + unit) \<times> 'w session" where
  "stageOps git byId [] s = (Inr (), s)"
| "stageOps git byId (opId # ids) s =
     (case byId opId of
        None \<Rightarrow> (Inl (UnknownOpIdInPlan opId), s)
      | Some op \<Rightarrow>
         (case opStageArgs op of
            Inl e \<Rightarrow> (Inl e, s)
          | Inr args \<Rightarrow>
             (case runGit git args s of
                (Inl e, s') \<Rightarrow> (Inl e, s')
              | (Inr out, s') \<Rightarrow> stageOps git byId ids s')))"

text \<open>Steps 3 and 4: the check of the index, the commit and the reset.\<close>

definition commitArgs :: "PlanCommit \<Rightarrow> jsstring list" where
  "commitArgs c =
     [str ''commit'', str ''-m'', message c] @
     (if truthy (body c) \<and> trim (orElse (body c) []) \<noteq> []
      then [str ''-m'', trim (orElse (body c) [])] else [])"

definition stagedArgs :: "jsstring list" where
  "stagedArgs = [str ''diff'', str ''--cached'', str ''--name-only'']"

definition commitStaged ::
  "'w git \<Rightarrow> PlanCommit \<Rightarrow> 'w session \<Rightarrow> (error + unit) \<times> 'w session" where
  "commitStaged git c s =
     (case runGit git stagedArgs s of
        (Inl e, s1) \<Rightarrow> (Inl e, s1)
      | (Inr out, s1) \<Rightarrow>
          if trim out = [] then (Inl (NothingStaged (message c)), s1)
          else
            (case runGit git (commitArgs c) s1 of
               (Inl e, s2) \<Rightarrow> (Inl e, s2)
             | (Inr out2, s2) \<Rightarrow>
                (case runGit git [str ''reset''] s2 of
                   (Inl e, s3) \<Rightarrow> (Inl e, s3)
                 | (Inr out3, s3) \<Rightarrow> (Inr (), s3))))"

text \<open>The body of the loop of \<open>applyPlan\<close> over the commits.\<close>

definition applyCommit ::
  "'w git \<Rightarrow> (jsstring \<Rightarrow> Hunk option) \<Rightarrow> (jsstring \<Rightarrow> FileOp option) \<Rightarrow> PlanCommit \<Rightarrow>
   'w session \<Rightarrow> (error + unit) \<times> 'w session" where
  "applyCommit git hById oById c s =
     (case stageHunks git hById c s of
        (Inl e, s1) \<Rightarrow> (Inl e, s1)
      | (Inr u, s1) \<Rightarrow>
         (case stageOps git oById (opsOf c) s1 of
            (Inl e, s2) \<Rightarrow> (Inl e, s2)
          | (Inr u2, s2) \<Rightarrow> commitStaged git c s2))"

text \<open>
  \<open>cancelled\<close> reads \<open>token.isCancellationRequested\<close> from the world, before each commit.
\<close>

fun applyCommits ::
  "'w git \<Rightarrow> ('w \<Rightarrow> bool) \<Rightarrow> (jsstring \<Rightarrow> Hunk option) \<Rightarrow> (jsstring \<Rightarrow> FileOp option) \<Rightarrow>
   PlanCommit list \<Rightarrow> 'w session \<Rightarrow> (error + unit) \<times> 'w session" where
  "applyCommits git cancelled hById oById [] s = (Inr (), s)"
| "applyCommits git cancelled hById oById (c # cs) s =
     (if cancelled (fst s) then (Inr (), s)
      else
        (case applyCommit git hById oById c s of
           (Inl e, s') \<Rightarrow> (Inl e, s')
         | (Inr u, s') \<Rightarrow> applyCommits git cancelled hById oById cs s'))"

definition applyPlan ::
  "'w git \<Rightarrow> ('w \<Rightarrow> bool) \<Rightarrow> Plan \<Rightarrow> Hunk list \<Rightarrow> FileOp list \<Rightarrow> 'w session \<Rightarrow>
   (error + unit) \<times> 'w session" where
  "applyPlan git cancelled plan hs os s =
     applyCommits git cancelled (hunkById hs) (opById os) (commits plan) s"

section \<open>Vocabulary of the statements\<close>

text \<open>The ids a plan refers to, commit after commit, and what each commit must satisfy.\<close>

definition planHunkIds :: "Plan \<Rightarrow> jsstring list" where
  "planHunkIds plan = concat (map hunks (commits plan))"

definition planOpIds :: "Plan \<Rightarrow> jsstring list" where
  "planOpIds plan = concat (map opsOf (commits plan))"

definition commitWellFormed :: "PlanCommit \<Rightarrow> bool" where
  "commitWellFormed c =
     (trim (message c) \<noteq> [] \<and> (hunks c \<noteq> [] \<or> opsOf c \<noteq> [])
      \<and> isConventionalCommitHeader (message c))"

definition idsAccepted :: "'a list \<Rightarrow> 'a list \<Rightarrow> 'a list \<Rightarrow> 'a list \<Rightarrow> bool" where
  "idsAccepted U ids seen seen' =
     (set ids \<subseteq> set U \<and> distinct ids \<and> set ids \<inter> set seen = {} \<and> seen' = seen @ ids)"

text \<open>
  The shape of a commit message in the words of the specification: \<open>type[(scope)]: subject\<close>,
  a lowercase type, a subject of 1 to 72 characters, and no other constraint.
\<close>

definition specHeaderShape :: "jsstring \<Rightarrow> bool" where
  "specHeaderShape s =
     (\<exists>ty sc subj. s = ty @ sc @ str '': '' @ subj
        \<and> ty \<noteq> [] \<and> (\<forall>c \<in> set ty. isLower c)
        \<and> (sc = [] \<or> (\<exists>scope. sc = str ''('' @ scope @ str '')''))
        \<and> 1 \<le> length subj \<and> length subj \<le> 72)"




definition applyFails :: "unit git" where
  "applyFails w args input = (if args = applyArgs then (None, w) else (Some [], w))"

definition allSucceed :: "unit git" where
  "allSucceed w args input = (Some [], w)"


text \<open>
  A record the status parser does not recognise: a token whose first character is none of
  \<open>#\<close>, \<open>?\<close>, \<open>u\<close>, \<open>1\<close>, \<open>2\<close>, or a \<open>1\<close> or \<open>2\<close> record with too few fields. Then the result
  of parsing nothing, and a hunk of a given id and file.
\<close>

definition unrecognized :: "jsstring \<Rightarrow> bool" where
  "unrecognized t =
     (t \<noteq> [] \<and>
      (charAt t 0 \<notin> {Some (chr CHR ''#''), Some (chr CHR ''?''), Some (chr CHR ''u''),
                      Some (chr CHR ''1''), Some (chr CHR ''2'')}
       \<or> (charAt t 0 = Some (chr CHR ''1'') \<and> length (splitOn (chr CHR '' '') t) < 9)
       \<or> (charAt t 0 = Some (chr CHR ''2'') \<and> length (splitOn (chr CHR '' '') t) < 10)))"

definition emptyStatus :: StatusResult where
  "emptyStatus = \<lparr>status_ops = [], unsplittablePaths = {}, hasUnmerged = False\<rparr>"

definition hunkOf :: "string \<Rightarrow> string \<Rightarrow> Hunk" where
  "hunkOf i f =
     \<lparr>hunk_id = str i, hunk_file = str f, fileHeader = [str ''diff --git a/f b/f''],
      hunkLines = [str ''@@ -1 +1 @@'', str ''+x''], patchText = [], stats_add = 1,
      stats_del = 0\<rparr>"

text \<open>
  A balanced object, as a grammar. The body of a string is a sequence of characters other
  than the quote and the backslash, and of escapes, a backslash and any character. The
  content between two braces is a sequence of characters other than the quote and the
  braces, of strings, and of nested objects. \<open>closes k w\<close>: the text \<open>w\<close> closes \<open>k\<close> open
  braces, the last one with its last character. \<open>outside\<close> and \<open>inside\<close>: what the rest of the
  text is when the loop returns \<open>m\<close> from position \<open>n\<close>, outside and inside a string.
\<close>

inductive_set strBody :: "jsstring set" where
  body_nil: "[] \<in> strBody"
| body_char: "c \<noteq> chr CHR 0x22 \<Longrightarrow> c \<noteq> chr CHR 0x5C \<Longrightarrow> w \<in> strBody \<Longrightarrow> c # w \<in> strBody"
| body_esc: "w \<in> strBody \<Longrightarrow> chr CHR 0x5C # c # w \<in> strBody"

inductive_set content :: "jsstring set" where
  content_nil: "[] \<in> content"
| content_char: "c \<noteq> chr CHR 0x22 \<Longrightarrow> c \<noteq> chr CHR ''{'' \<Longrightarrow> c \<noteq> chr CHR ''}'' \<Longrightarrow> w \<in> content
     \<Longrightarrow> c # w \<in> content"
| content_str: "b \<in> strBody \<Longrightarrow> w \<in> content \<Longrightarrow> chr CHR 0x22 # b @ chr CHR 0x22 # w \<in> content"
| content_obj: "u \<in> content \<Longrightarrow> w \<in> content \<Longrightarrow> chr CHR ''{'' # u @ chr CHR ''}'' # w \<in> content"

definition balancedObject :: "jsstring \<Rightarrow> bool" where
  "balancedObject s = (\<exists>u. u \<in> content \<and> s = chr CHR ''{'' # u @ [chr CHR ''}''])"

definition closes :: "nat \<Rightarrow> jsstring \<Rightarrow> bool" where
  "closes k w =
     (\<exists>us. length us = k \<and> set us \<subseteq> content \<and> w = concat (map (\<lambda>u. u @ [chr CHR ''}'']) us))"

definition outside :: "nat \<Rightarrow> jsstring \<Rightarrow> nat \<Rightarrow> nat \<Rightarrow> bool" where
  "outside k cs n m = (\<exists>w rest. cs = w @ rest \<and> m = n + length w \<and> closes k w)"

definition inside :: "nat \<Rightarrow> jsstring \<Rightarrow> nat \<Rightarrow> nat \<Rightarrow> bool" where
  "inside k cs n m =
     (\<exists>b w rest. cs = b @ chr CHR 0x22 # w @ rest \<and> b \<in> strBody
        \<and> m = n + length b + 1 + length w \<and> closes k w)"

text \<open>
  The hunks of one commit grouped by file: the files in the order of their first hunk, each
  with the header of its first hunk and the line blocks of its hunks in order. A text cut
  into segments, each a piece without line feed followed by a run of line feeds; the runs
  are the longest ones when every piece but the first is not empty. Then the collapsing of
  blank lines in the words of the specification, on the lines of the text: a run of three
  or more blank lines becomes two blank lines.
\<close>

definition entryOf :: "Hunk list \<Rightarrow> jsstring \<Rightarrow> entry" where
  "entryOf hs f =
     (fileHeader (hd (filter (\<lambda>h. hunk_file h = f) hs)),
      map hunkLines (filter (\<lambda>h. hunk_file h = f) hs))"

definition groupedByFile :: "Hunk list \<Rightarrow> (jsstring \<times> entry) list" where
  "groupedByFile hs = map (\<lambda>f. (f, entryOf hs f)) (newSet (map hunk_file hs))"

definition flattenRuns :: "(jsstring \<times> nat) list \<Rightarrow> jsstring" where
  "flattenRuns segs = concat (map (\<lambda>(w, n). w @ replicate n 10) segs)"

definition wellSegmented :: "(jsstring \<times> nat) list \<Rightarrow> bool" where
  "wellSegmented segs =
     (list_all (\<lambda>(w, n). 10 \<notin> set w) segs \<and> list_all (\<lambda>(w, n). w \<noteq> []) (tl segs))"

function specCollapseBlankLines :: "jsstring list \<Rightarrow> jsstring list" where
  "specCollapseBlankLines [] = []"
| "specCollapseBlankLines (l # ls) =
     (if l = [] \<and> take 2 ls = [[], []]
      then [[], []] @ specCollapseBlankLines (dropWhile (\<lambda>x. x = []) ls)
      else l # specCollapseBlankLines ls)"
  by pat_completeness auto
termination
  by (relation "measure length") (auto intro: le_imp_less_Suc length_dropWhile_le)

definition specPatchText :: "(jsstring \<times> entry) list \<Rightarrow> jsstring" where
  "specPatchText patchesByFile =
     join [10] (specCollapseBlankLines (splitOn 10 (join [10] (patchParts patchesByFile))))"

definition blankLinesExample :: "(jsstring \<times> entry) list" where
  "blankLinesExample =
     [(str ''f'', ([str ''diff --git a/f b/f''], [[str ''@@ -1,5 +1,5 @@'', [], [], [], str ''+x'']]))]"

definition blankLinesHunk :: Hunk where
  "blankLinesHunk =
     \<lparr>hunk_id = str ''h1'', hunk_file = str ''f'', fileHeader = [str ''diff --git a/f b/f''],
      hunkLines = [str ''@@ -1,5 +1,5 @@'', [], [], [], str ''+x''], patchText = [],
      stats_add = 1, stats_del = 0\<rparr>"

section \<open>The matcher decides the language\<close>

lemma conc_iff: "w \<in> conc A B \<longleftrightarrow> (\<exists>u v. w = u @ v \<and> u \<in> A \<and> v \<in> B)"
  by (auto simp: conc_def)

lemma nullable_iff: "nullable r \<longleftrightarrow> [] \<in> lang r"
  by (induction r) (auto simp: conc_iff intro: star.star_nil)

lemma star_cons_elim:
  assumes "x \<in> star A" and "x = c # w"
  shows "\<exists>u v. w = u @ v \<and> c # u \<in> A \<and> v \<in> star A"
  using assms
proof (induction rule: star.induct)
  case star_nil
  then show ?case by simp
next
  case (star_app u v)
  show ?case
  proof (cases u)
    case Nil
    with star_app show ?thesis by simp
  next
    case (Cons d u')
    with star_app have "w = u' @ v" "c # u' \<in> A" by auto
    with star_app show ?thesis by blast
  qed
qed

lemma star_cons: "c # w \<in> star A \<longleftrightarrow> (\<exists>u v. w = u @ v \<and> c # u \<in> A \<and> v \<in> star A)"
proof
  assume a: "c # w \<in> star A"
  show "\<exists>u v. w = u @ v \<and> c # u \<in> A \<and> v \<in> star A"
    by (rule star_cons_elim [OF a refl])
next
  assume "\<exists>u v. w = u @ v \<and> c # u \<in> A \<and> v \<in> star A"
  then obtain u v where "w = u @ v" "c # u \<in> A" "v \<in> star A" by blast
  then show "c # w \<in> star A"
    using star.star_app [of "c # u" A v] by simp
qed

lemma conc_cons:
  "c # w \<in> conc A B \<longleftrightarrow>
     (\<exists>u v. w = u @ v \<and> c # u \<in> A \<and> v \<in> B) \<or> ([] \<in> A \<and> c # w \<in> B)"
proof
  assume "c # w \<in> conc A B"
  then obtain u v where uv: "c # w = u @ v" "u \<in> A" "v \<in> B"
    by (auto simp: conc_iff)
  show "(\<exists>u v. w = u @ v \<and> c # u \<in> A \<and> v \<in> B) \<or> ([] \<in> A \<and> c # w \<in> B)"
  proof (cases u)
    case Nil
    with uv show ?thesis by simp
  next
    case (Cons d u')
    with uv have "w = u' @ v" "c # u' \<in> A" by auto
    with uv show ?thesis by blast
  qed
next
  assume "(\<exists>u v. w = u @ v \<and> c # u \<in> A \<and> v \<in> B) \<or> ([] \<in> A \<and> c # w \<in> B)"
  then show "c # w \<in> conc A B"
  proof
    assume "\<exists>u v. w = u @ v \<and> c # u \<in> A \<and> v \<in> B"
    then obtain u v where "c # w = (c # u) @ v" "c # u \<in> A" "v \<in> B" by auto
    then show ?thesis unfolding conc_iff by blast
  next
    assume "[] \<in> A \<and> c # w \<in> B"
    then have "c # w = [] @ (c # w)" "[] \<in> A" "c # w \<in> B" by auto
    then show ?thesis unfolding conc_iff by blast
  qed
qed

lemma conc_deriv_iff:
  "w \<in> conc {u. c # u \<in> A} B \<longleftrightarrow> (\<exists>u v. w = u @ v \<and> c # u \<in> A \<and> v \<in> B)"
  by (simp add: conc_iff)

lemma lang_deriv: "lang (deriv c r) = {w. c # w \<in> lang r}"
proof (induction r)
  case (Seq r s)
  have "w \<in> lang (deriv c (Seq r s)) \<longleftrightarrow> c # w \<in> lang (Seq r s)" for w
    by (simp add: Seq conc_cons conc_deriv_iff nullable_iff)
  then show ?case by blast
next
  case (Star r)
  have "w \<in> lang (deriv c (Star r)) \<longleftrightarrow> c # w \<in> lang (Star r)" for w
    by (simp add: Star star_cons conc_deriv_iff)
  then show ?case by blast
qed auto

lemma matches_iff: "matches r w \<longleftrightarrow> w \<in> lang r"
  by (induction w arbitrary: r) (simp_all add: nullable_iff lang_deriv)

lemma star_atom: "star {[c] | c. p c} = {w. \<forall>c \<in> set w. p c}"
proof (rule set_eqI, rule iffI)
  fix w assume "w \<in> star {[c] | c. p c}"
  then show "w \<in> {w. \<forall>c \<in> set w. p c}"
    by (induction rule: star.induct) auto
next
  fix w assume "w \<in> {w. \<forall>c \<in> set w. p c}"
  then show "w \<in> star {[c] | c. p c}"
  proof (induction w)
    case Nil
    show ?case by (rule star.star_nil)
  next
    case (Cons a w)
    then have "[a] \<in> {[c] | c. p c}" "w \<in> star {[c] | c. p c}" by auto
    then have "[a] @ w \<in> star {[c] | c. p c}" by (rule star.star_app)
    then show ?case by simp
  qed
qed

lemma conc_atom: "w \<in> conc {[c] | c. p c} B \<longleftrightarrow> (\<exists>c v. w = c # v \<and> p c \<and> v \<in> B)"
proof
  assume "w \<in> conc {[c] | c. p c} B"
  then obtain u v where "w = u @ v" "u \<in> {[c] | c. p c}" "v \<in> B"
    by (auto simp: conc_iff)
  then show "\<exists>c v. w = c # v \<and> p c \<and> v \<in> B" by auto
next
  assume "\<exists>c v. w = c # v \<and> p c \<and> v \<in> B"
  then obtain c v where "w = [c] @ v" "[c] \<in> {[c] | c. p c}" "v \<in> B" by auto
  then show "w \<in> conc {[c] | c. p c} B" unfolding conc_iff by blast
qed

lemma lang_plus1_atom: "lang (plus1 (Atom p)) = {w. w \<noteq> [] \<and> (\<forall>c \<in> set w. p c)}"
proof -
  have "w \<in> lang (plus1 (Atom p)) \<longleftrightarrow> w \<noteq> [] \<and> (\<forall>c \<in> set w. p c)" for w
    by (cases w) (auto simp: plus1_def star_atom conc_atom)
  then show ?thesis by blast
qed

lemma lang_repeat_atom:
  "lang (repeat lo hi (Atom p)) = {w. lo \<le> length w \<and> length w \<le> hi \<and> (\<forall>c \<in> set w. p c)}"
proof (induction lo hi "Atom p" rule: repeat.induct)
  case 1
  show ?case by auto
next
  case (2 hi)
  have "w \<in> lang (repeat 0 (Suc hi) (Atom p)) \<longleftrightarrow> length w \<le> Suc hi \<and> (\<forall>c \<in> set w. p c)" for w
    by (cases w) (auto simp: 2 conc_atom)
  then show ?case by auto
next
  case (3 lo)
  show ?case by auto
next
  case (4 lo hi)
  have "w \<in> lang (repeat (Suc lo) (Suc hi) (Atom p)) \<longleftrightarrow>
        Suc lo \<le> length w \<and> length w \<le> Suc hi \<and> (\<forall>c \<in> set w. p c)" for w
    by (cases w) (auto simp: 4 conc_atom)
  then show ?case by auto
qed


lemma matches_Zero: "matches Zero w = False"
  by (simp add: matches_iff)

lemma matches_One: "matches One w = (w = [])"
  by (auto simp: matches_iff)

lemma matches_Alt: "matches (Alt r s) w = (matches r w \<or> matches s w)"
  by (simp add: matches_iff)

lemma matches_Seq_Zero: "matches (Seq Zero r) w = False"
  by (simp add: matches_iff conc_iff)

lemma matches_Seq_One: "matches (Seq One r) w = matches r w"
  by (simp add: matches_iff conc_iff)

lemma matches_Seq_Alt: "matches (Seq (Alt r s) t) w = (matches (Seq r t) w \<or> matches (Seq s t) w)"
  by (auto simp: matches_iff conc_iff)

lemma matches_Seq_Seq: "matches (Seq (Seq r s) t) w = matches (Seq r (Seq s t)) w"
proof -
  have "conc (conc A B) C = conc A (conc B C)" for A B C :: "'a list set"
    unfolding conc_def
    apply (rule set_eqI)
    apply (rule iffI)
     apply clarsimp
     apply (metis append.assoc)
    apply clarsimp
    apply (metis append.assoc)
    done
  then show ?thesis by (simp add: matches_iff)
qed

lemma repeat_numeral:
  "repeat 0 (numeral k) r = Alt (Seq r (repeat 0 (pred_numeral k) r)) One"
  "repeat (Suc 0) (numeral k) r = Seq r (repeat 0 (pred_numeral k) r)"
  by (simp_all add: numeral_eq_Suc)

lemmas eval_simps = headerRegex_def isConventionalCommitHeader_def trim_def isWhiteSpace_def
  isLineTerminator_def isLower_def plus1_def opt_def repeat_numeral
  matches_Zero matches_One matches_Alt matches_Seq_Zero matches_Seq_One matches_Seq_Alt
  matches_Seq_Seq


lemma conc_single: "w \<in> conc {[a]} B \<longleftrightarrow> (\<exists>v. w = a # v \<and> v \<in> B)"
  by (auto simp: conc_iff)

lemma conc_single_right: "w \<in> conc A {[a]} \<longleftrightarrow> (\<exists>u. w = u @ [a] \<and> u \<in> A)"
  by (auto simp: conc_iff)

lemma scope_lang:
  "x \<in> lang (opt (Seq (Atom (\<lambda>c. c = chr CHR ''(''))
                  (Seq (plus1 (Atom (\<lambda>c. c \<noteq> chr CHR '')'')))
                       (Atom (\<lambda>c. c = chr CHR '')''))))) \<longleftrightarrow>
   (x = [] \<or> (\<exists>scope. x = chr CHR ''('' # scope @ [chr CHR '')''] \<and> scope \<noteq> []
        \<and> chr CHR '')'' \<notin> set scope))"
  by (auto simp: opt_def lang_plus1_atom conc_single conc_single_right)

lemma tail_lang:
  "y \<in> lang (Seq (Atom (\<lambda>c. c = chr CHR '':''))
          (Seq (Atom isWhiteSpace)
               (repeat 1 72 (Atom (\<lambda>c. \<not> isLineTerminator c))))) \<longleftrightarrow>
   (\<exists>sep subj. y = chr CHR '':'' # sep # subj \<and> isWhiteSpace sep \<and> 1 \<le> length subj
       \<and> length subj \<le> 72 \<and> (\<forall>c \<in> set subj. \<not> isLineTerminator c))"
  by (auto simp: lang_repeat_atom conc_single conc_atom)

lemma headerRegex_lang:
  "w \<in> lang headerRegex \<longleftrightarrow>
   (\<exists>ty sc sep subj. w = ty @ sc @ chr CHR '':'' # sep # subj
      \<and> ty \<noteq> [] \<and> (\<forall>c \<in> set ty. isLower c)
      \<and> (sc = [] \<or> (\<exists>scope. sc = chr CHR ''('' # scope @ [chr CHR '')''] \<and> scope \<noteq> []
             \<and> chr CHR '')'' \<notin> set scope))
      \<and> isWhiteSpace sep \<and> 1 \<le> length subj \<and> length subj \<le> 72
      \<and> (\<forall>c \<in> set subj. \<not> isLineTerminator c))"
proof -
  have "w \<in> lang headerRegex \<longleftrightarrow>
    (\<exists>ty rest. w = ty @ rest \<and> ty \<in> lang (plus1 (Atom isLower)) \<and>
      (\<exists>sc y. rest = sc @ y \<and>
         sc \<in> lang (opt (Seq (Atom (\<lambda>c. c = chr CHR ''(''))
                  (Seq (plus1 (Atom (\<lambda>c. c \<noteq> chr CHR '')'')))
                       (Atom (\<lambda>c. c = chr CHR '')''))))) \<and>
         y \<in> lang (Seq (Atom (\<lambda>c. c = chr CHR '':''))
          (Seq (Atom isWhiteSpace)
               (repeat 1 72 (Atom (\<lambda>c. \<not> isLineTerminator c)))))))"
    unfolding headerRegex_def lang.simps(5) conc_iff ..
  also have "\<dots> \<longleftrightarrow> (\<exists>ty sc sep subj. w = ty @ sc @ chr CHR '':'' # sep # subj
      \<and> ty \<noteq> [] \<and> (\<forall>c \<in> set ty. isLower c)
      \<and> (sc = [] \<or> (\<exists>scope. sc = chr CHR ''('' # scope @ [chr CHR '')''] \<and> scope \<noteq> []
             \<and> chr CHR '')'' \<notin> set scope))
      \<and> isWhiteSpace sep \<and> 1 \<le> length subj \<and> length subj \<le> 72
      \<and> (\<forall>c \<in> set subj. \<not> isLineTerminator c))"
    unfolding scope_lang tail_lang lang_plus1_atom
    by (simp) blast
  finally show ?thesis .
qed

section \<open>Plan validation covers every id exactly once\<close>

lemma set_newSet: "set (newSet xs) = set xs"
  by (induction xs) auto

lemma idsAccepted_Nil: "idsAccepted U [] s s' \<longleftrightarrow> s' = s"
  by (auto simp: idsAccepted_def)

lemma idsAccepted_append:
  "idsAccepted U (xs @ ys) s s' \<longleftrightarrow> idsAccepted U xs s (s @ xs) \<and> idsAccepted U ys (s @ xs) s'"
  unfolding idsAccepted_def by auto

lemma idsAccepted_final: "idsAccepted U xs s s' \<Longrightarrow> s' = s @ xs"
  by (simp add: idsAccepted_def)

lemma checkIds_Inr_iff:
  "checkIds unk dup U ids seen = Inr seen' \<longleftrightarrow> idsAccepted U ids seen seen'"
  unfolding idsAccepted_def
  by (induction ids arbitrary: seen) auto

lemma checkIds_cases:
  obtains (fail) e where "checkIds unk dup U ids seen = Inl e"
      and "\<not> idsAccepted U ids seen (seen @ ids)"
  | (ok) "checkIds unk dup U ids seen = Inr (seen @ ids)"
      and "idsAccepted U ids seen (seen @ ids)"
proof (cases "checkIds unk dup U ids seen")
  case (Inl e)
  moreover have "\<not> idsAccepted U ids seen (seen @ ids)"
    using Inl checkIds_Inr_iff [of unk dup U ids seen "seen @ ids"] by simp
  ultimately show ?thesis by (rule fail)
next
  case (Inr s')
  then have a: "idsAccepted U ids seen s'" by (simp add: checkIds_Inr_iff)
  then have "s' = seen @ ids" by (rule idsAccepted_final)
  with Inr a show ?thesis by (intro ok) simp_all
qed

lemma validateCommit_Inr_iff:
  "validateCommit aH aO c (sH, sO) = Inr (sH', sO') \<longleftrightarrow>
     commitWellFormed c \<and> idsAccepted aH (hunks c) sH sH' \<and> idsAccepted aO (opsOf c) sO sO'"
proof (cases rule: checkIds_cases [of UnknownHunkId DuplicateHunkId aH "hunks c" sH])
  case (fail e)
  have "\<not> idsAccepted aH (hunks c) sH sH'"
    using fail(2) idsAccepted_final [of aH "hunks c" sH sH'] by auto
  with fail(1) show ?thesis by (simp add: validateCommit_def)
next
  case ok
  note H = this
  have hs: "idsAccepted aH (hunks c) sH sH' \<longleftrightarrow> sH' = sH @ hunks c"
    using H(2) idsAccepted_final [of aH "hunks c" sH sH'] by auto
  show ?thesis
  proof (cases rule: checkIds_cases [of UnknownOpId DuplicateOpId aO "opsOf c" sO])
    case (fail e)
    have "\<not> idsAccepted aO (opsOf c) sO sO'"
      using fail(2) idsAccepted_final [of aO "opsOf c" sO sO'] by auto
    with fail(1) H(1) show ?thesis by (simp add: validateCommit_def)
  next
    case ok
    have os: "idsAccepted aO (opsOf c) sO sO' \<longleftrightarrow> sO' = sO @ opsOf c"
      using ok(2) idsAccepted_final [of aO "opsOf c" sO sO'] by auto
    show ?thesis
      unfolding hs os using H(1) ok(1)
      by (auto simp: validateCommit_def commitWellFormed_def)
  qed
qed

lemma validateCommit_cases:
  obtains (fail) e where "validateCommit aH aO c (sH, sO) = Inl e"
      and "\<not> (commitWellFormed c \<and> idsAccepted aH (hunks c) sH (sH @ hunks c)
               \<and> idsAccepted aO (opsOf c) sO (sO @ opsOf c))"
  | (ok) "validateCommit aH aO c (sH, sO) = Inr (sH @ hunks c, sO @ opsOf c)"
      and "commitWellFormed c" and "idsAccepted aH (hunks c) sH (sH @ hunks c)"
      and "idsAccepted aO (opsOf c) sO (sO @ opsOf c)"
proof (cases "validateCommit aH aO c (sH, sO)")
  case (Inl e)
  moreover have "\<not> (commitWellFormed c \<and> idsAccepted aH (hunks c) sH (sH @ hunks c)
               \<and> idsAccepted aO (opsOf c) sO (sO @ opsOf c))"
    using Inl validateCommit_Inr_iff [of aH aO c sH sO "sH @ hunks c" "sO @ opsOf c"] by simp
  ultimately show ?thesis by (rule fail)
next
  case (Inr seen)
  obtain h p where seen: "seen = (h, p)" by (cases seen)
  with Inr have a: "commitWellFormed c" "idsAccepted aH (hunks c) sH h"
    "idsAccepted aO (opsOf c) sO p"
    by (simp_all add: validateCommit_Inr_iff)
  then have "h = sH @ hunks c" "p = sO @ opsOf c"
    by (simp_all add: idsAccepted_final)
  with Inr seen a show ?thesis by (intro ok) simp_all
qed

lemma validateCommits_Inr_iff:
  "validateCommits aH aO cs (sH, sO) = Inr (sH', sO') \<longleftrightarrow>
     (\<forall>c \<in> set cs. commitWellFormed c)
     \<and> idsAccepted aH (concat (map hunks cs)) sH sH'
     \<and> idsAccepted aO (concat (map opsOf cs)) sO sO'"
proof (induction cs arbitrary: sH sO)
  case Nil
  show ?case by (auto simp: idsAccepted_Nil)
next
  case (Cons c cs)
  show ?case
  proof (cases rule: validateCommit_cases [of aH aO c sH sO])
    case (fail e)
    then show ?thesis
      by (auto simp: idsAccepted_append)
  next
    case ok
    have "validateCommits aH aO (c # cs) (sH, sO) =
          validateCommits aH aO cs (sH @ hunks c, sO @ opsOf c)"
      using ok(1) by simp
    then show ?thesis
      using ok(2-4) by (simp add: Cons.IH idsAccepted_append)
  qed
qed

text \<open>
  Claim C1. \<open>validatePlan\<close> returns successfully exactly when the plan has a commit, every
  commit has a non-blank conventional message and refers to at least one id, the hunk ids
  of all commits taken together are the hunk ids of the snapshot, each referred to once,
  and likewise for the operation ids. So an unknown id, an id referred to twice (by two
  commits or by one) and a snapshot id that no commit refers to each make validation fail.
\<close>

theorem validatePlan_partition:
  "validatePlan plan hs os = Inr () \<longleftrightarrow>
     commits plan \<noteq> [] \<and> (\<forall>c \<in> set (commits plan). commitWellFormed c)
     \<and> distinct (planHunkIds plan) \<and> set (planHunkIds plan) = hunk_id ` set hs
     \<and> distinct (planOpIds plan) \<and> set (planOpIds plan) = op_id ` set os"
proof (cases "commits plan = []")
  case True
  then show ?thesis by (simp add: validatePlan_def)
next
  case False
  let ?aH = "newSet (map hunk_id hs)" and ?aO = "newSet (map op_id os)"
  let ?v = "validateCommits ?aH ?aO (commits plan) ([], [])"
  have acc: "idsAccepted U xs [] xs \<longleftrightarrow> set xs \<subseteq> set U \<and> distinct xs" for U xs :: "jsstring list"
    by (simp add: idsAccepted_def)
  have ok_iff: "?v = Inr (planHunkIds plan, planOpIds plan) \<longleftrightarrow>
      (\<forall>c \<in> set (commits plan). commitWellFormed c)
       \<and> set (planHunkIds plan) \<subseteq> hunk_id ` set hs \<and> distinct (planHunkIds plan)
       \<and> set (planOpIds plan) \<subseteq> op_id ` set os \<and> distinct (planOpIds plan)"
    unfolding validateCommits_Inr_iff planHunkIds_def planOpIds_def acc
    by (simp add: set_newSet)
  show ?thesis
  proof (cases ?v)
    case (Inl e)
    with ok_iff False show ?thesis
      by (auto simp: validatePlan_def)
  next
    case (Inr seen)
    obtain h p where seen: "seen = (h, p)" by (cases seen)
    with Inr have "idsAccepted ?aH (planHunkIds plan) [] h" "idsAccepted ?aO (planOpIds plan) [] p"
      by (simp_all add: validateCommits_Inr_iff planHunkIds_def planOpIds_def)
    then have hp: "h = planHunkIds plan" "p = planOpIds plan"
      using idsAccepted_final [of ?aH "planHunkIds plan" "[]" h]
        idsAccepted_final [of ?aO "planOpIds plan" "[]" p] by simp_all
    have v: "?v = Inr (planHunkIds plan, planOpIds plan)"
      using Inr seen hp by simp
    have "validatePlan plan hs os = Inr () \<longleftrightarrow>
        hunk_id ` set hs \<subseteq> set (planHunkIds plan) \<and> op_id ` set os \<subseteq> set (planOpIds plan)"
      using False v
      by (auto simp: validatePlan_def Let_def filter_empty_conv set_newSet)
    with v ok_iff show ?thesis
      using False by blast
  qed
qed

theorem validatePlan_partition_witness:
  "validatePlan
     \<lparr>commits = [\<lparr>message = str ''chore: initial'', body = None, hunks = [str ''h1''],
                   ops = Some [str ''op1'']\<rparr>]\<rparr>
     [\<lparr>hunk_id = str ''h1'', hunk_file = str ''a.txt'', fileHeader = [], hunkLines = [],
       patchText = [], stats_add = 0, stats_del = 0\<rparr>]
     [\<lparr>op_id = str ''op1'', kind = Add, path = str ''b.txt'', origPath = None\<rparr>] = Inr ()"
  unfolding validatePlan_partition
  by (simp add: commitWellFormed_def planHunkIds_def planOpIds_def opsOf_def orElse_def
      eval_simps)

section \<open>The shape of an accepted commit message\<close>

text \<open>
  Claim C4, as stated, fails: a message whose subject holds a line feed has the shape
  \<open>type: subject\<close> with a subject of three characters, and is rejected.
\<close>

theorem header_newline_counterexample:
  "specHeaderShape (trim (str ''fix: a'' @ [10] @ str ''b''))
   \<and> \<not> isConventionalCommitHeader (str ''fix: a'' @ [10] @ str ''b'')"
proof
  have "trim (str ''fix: a'' @ [10] @ str ''b'') = str ''fix'' @ [] @ str '': '' @ (str ''a'' @ [10] @ str ''b'')"
    by (simp add: trim_def isWhiteSpace_def isLineTerminator_def)
  moreover have "specHeaderShape (str ''fix'' @ [] @ str '': '' @ (str ''a'' @ [10] @ str ''b''))"
    unfolding specHeaderShape_def
    apply (rule exI [of _ "str ''fix''"])
    apply (rule exI [of _ "[]"])
    apply (rule exI [of _ "str ''a'' @ [10] @ str ''b''"])
    apply (simp add: isLower_def)
    done
  ultimately show "specHeaderShape (trim (str ''fix: a'' @ [10] @ str ''b''))"
    by simp
next
  show "\<not> isConventionalCommitHeader (str ''fix: a'' @ [10] @ str ''b'')"
    by (simp add: eval_simps)
qed

text \<open>
  Claim C4, amended. The check accepts a message exactly when, after trimming, it is: one
  or more letters \<open>a\<close> to \<open>z\<close>; optionally a scope in parentheses, not empty and without a
  closing parenthesis; a colon; one white space character; and a subject of 1 to 72
  characters (UTF-16 code units), none of them a line terminator. \<open>Fix bug\<close> is rejected and
  \<open>fix(core): handle null input\<close> is accepted.
\<close>

theorem isConventionalCommitHeader_shape:
  "(\<forall>s. isConventionalCommitHeader s \<longleftrightarrow>
      (\<exists>ty sc sep subj. trim s = ty @ sc @ chr CHR '':'' # sep # subj
         \<and> ty \<noteq> [] \<and> (\<forall>c \<in> set ty. isLower c)
         \<and> (sc = [] \<or> (\<exists>scope. sc = chr CHR ''('' # scope @ [chr CHR '')''] \<and> scope \<noteq> []
                \<and> chr CHR '')'' \<notin> set scope))
         \<and> isWhiteSpace sep \<and> 1 \<le> length subj \<and> length subj \<le> 72
         \<and> (\<forall>c \<in> set subj. \<not> isLineTerminator c)))
   \<and> \<not> isConventionalCommitHeader (str ''Fix bug'')
   \<and> isConventionalCommitHeader (str ''fix(core): handle null input'')"
proof (intro conjI allI)
  fix s
  show "isConventionalCommitHeader s \<longleftrightarrow>
      (\<exists>ty sc sep subj. trim s = ty @ sc @ chr CHR '':'' # sep # subj
         \<and> ty \<noteq> [] \<and> (\<forall>c \<in> set ty. isLower c)
         \<and> (sc = [] \<or> (\<exists>scope. sc = chr CHR ''('' # scope @ [chr CHR '')''] \<and> scope \<noteq> []
                \<and> chr CHR '')'' \<notin> set scope))
         \<and> isWhiteSpace sep \<and> 1 \<le> length subj \<and> length subj \<le> 72
         \<and> (\<forall>c \<in> set subj. \<not> isLineTerminator c))"
    unfolding isConventionalCommitHeader_def matches_iff headerRegex_lang ..
next
  show "\<not> isConventionalCommitHeader (str ''Fix bug'')"
    by (simp add: eval_simps)
next
  show "isConventionalCommitHeader (str ''fix(core): handle null input'')"
    by (simp add: eval_simps)
qed

theorem isConventionalCommitHeader_shape_witness:
  "isConventionalCommitHeader (str ''  feat(ui): add x'')"
proof -
  have "\<exists>ty sc sep subj. trim (str ''  feat(ui): add x'') = ty @ sc @ chr CHR '':'' # sep # subj
         \<and> ty \<noteq> [] \<and> (\<forall>c \<in> set ty. isLower c)
         \<and> (sc = [] \<or> (\<exists>scope. sc = chr CHR ''('' # scope @ [chr CHR '')''] \<and> scope \<noteq> []
                \<and> chr CHR '')'' \<notin> set scope))
         \<and> isWhiteSpace sep \<and> 1 \<le> length subj \<and> length subj \<le> 72
         \<and> (\<forall>c \<in> set subj. \<not> isLineTerminator c)"
    apply (rule exI [of _ "str ''feat''"])
    apply (rule exI [of _ "str ''(ui)''"])
    apply (rule exI [of _ "chr CHR '' ''"])
    apply (rule exI [of _ "str ''add x''"])
    apply (simp add: trim_def isLower_def isWhiteSpace_def isLineTerminator_def)
    done
  then show ?thesis
    using isConventionalCommitHeader_shape by blast
qed

section \<open>The calls that applying a commit makes\<close>


















lemmas apply_eval = applyPlan_def applyCommit_def stageHunks_def commitStaged_def
  runGit_def runGitWithStdin_def spawnGit_def hunkById_def opById_def newMap_def mapGet_def
  opsOf_def orElse_def buildPatchText_def patchParts_def applyArgs_def stagedArgs_def
  commitArgs_def opStageArgs_def truthy_def trim_def isWhiteSpace_def isLineTerminator_def

section \<open>Staging renames and copies\<close>

text \<open>
  Claim C2, as stated, fails for a copy: staging the copy of \<open>a.txt\<close> to \<open>b.txt\<close> makes one
  call, \<open>git add -- b.txt\<close>, which does not name the original path.
\<close>

theorem copy_stages_destination_counterexample:
  "snd (snd (stageOps allSucceed
       (opById [\<lparr>op_id = str ''op1'', kind = Copy, path = str ''b.txt'',
                 origPath = Some (str ''a.txt'')\<rparr>])
       [str ''op1''] ((), [])))
   = [([str ''add'', str ''--'', str ''b.txt''], None, True)]"
  by (simp add: apply_eval allSucceed_def)

text \<open>
  Claim C2, amended. Staging a rename whose \<open>origPath\<close> is present runs one command,
  \<open>git add -A -- origPath path\<close>, on both paths together; a rename whose \<open>origPath\<close> is
  missing (or empty) is an error, raised before any command for that operation, and the
  error of an operation is the error of applying the commit. Staging a copy runs
  \<open>git add -- path\<close> on the destination path only.
\<close>

theorem stageOps_rename_copy:
  "byId opId = Some op \<Longrightarrow>
   (kind op = Rename \<and> truthy (origPath op) \<longrightarrow>
      stageOps git byId (opId # ids) s =
        (case runGit git [str ''add'', str ''-A'', str ''--'', the (origPath op), path op] s of
           (Inl e, s') \<Rightarrow> (Inl e, s')
         | (Inr out, s') \<Rightarrow> stageOps git byId ids s'))
   \<and> (kind op = Rename \<and> \<not> truthy (origPath op) \<longrightarrow>
      stageOps git byId (opId # ids) s = (Inl (RenameMissingOrig (op_id op)), s))
   \<and> (kind op = Copy \<longrightarrow>
      stageOps git byId (opId # ids) s =
        (case runGit git [str ''add'', str ''--'', path op] s of
           (Inl e, s') \<Rightarrow> (Inl e, s')
         | (Inr out, s') \<Rightarrow> stageOps git byId ids s'))
   \<and> (stageHunks git hById c s = (Inr (), sa) \<and> stageOps git byId (opsOf c) sa = (Inl e, sb) \<longrightarrow>
      applyCommit git hById byId c s = (Inl e, sb))"
  by (auto simp: opStageArgs_def truthy_def orElse_def applyCommit_def split: option.splits)

theorem stageOps_rename_copy_witness:
  "snd (snd (stageOps allSucceed
       (opById [\<lparr>op_id = str ''op1'', kind = Rename, path = str ''b.txt'',
                 origPath = Some (str ''a.txt'')\<rparr>])
       [str ''op1''] ((), [])))
   = [([str ''add'', str ''-A'', str ''--'', str ''a.txt'', str ''b.txt''], None, True)]
   \<and> fst (stageOps allSucceed
       (opById [\<lparr>op_id = str ''op2'', kind = Rename, path = str ''b.txt'', origPath = None\<rparr>])
       [str ''op2''] ((), []))
   = Inl (RenameMissingOrig (str ''op2''))"
proof -
  let ?op1 = "\<lparr>op_id = str ''op1'', kind = Rename, path = str ''b.txt'',
                 origPath = Some (str ''a.txt'')\<rparr>"
  let ?op2 = "\<lparr>op_id = str ''op2'', kind = Rename, path = str ''b.txt'', origPath = None\<rparr>"
  have 1: "opById [?op1] (str ''op1'') = Some ?op1"
    by (simp add: opById_def newMap_def mapGet_def)
  have 2: "opById [?op2] (str ''op2'') = Some ?op2"
    by (simp add: opById_def newMap_def mapGet_def)
  show ?thesis
    using stageOps_rename_copy [where byId = "opById [?op1]" and opId = "str ''op1''"
          and op = ?op1 and ids = "[]" and git = allSucceed and s = "((), [])"]
      stageOps_rename_copy [where byId = "opById [?op2]" and opId = "str ''op2''"
          and op = ?op2 and ids = "[]" and git = allSucceed and s = "((), [])"]
      1 2
    by (simp add: truthy_def runGit_def spawnGit_def allSucceed_def)
qed

section \<open>The check that something is staged\<close>

text \<open>
  Claim C3, as stated, fails in its second part: when \<open>git apply\<close> fails on the hunks of a
  commit that refers to no operation, applying the commit fails with the error of the git
  command, not with "nothing staged".
\<close>

theorem apply_failure_counterexample:
  "fst (applyCommit applyFails (hunkById [hunkOf ''h1'' ''f'']) (opById [])
         \<lparr>message = str ''fix: x'', body = None, hunks = [str ''h1''], ops = None\<rparr> ((), []))
     = Inl (GitCommandFailed applyArgs)
   \<and> fst (applyCommit applyFails (hunkById [hunkOf ''h1'' ''f'']) (opById [])
         \<lparr>message = str ''fix: x'', body = None, hunks = [str ''h1''], ops = None\<rparr> ((), []))
     \<noteq> Inl (NothingStaged (str ''fix: x''))"
  by (simp add: apply_eval applyFails_def hunkOf_def)

text \<open>
  Claim C3, amended. When the hunks and operations of a commit have been staged and the
  staged paths read back with \<open>git diff --cached --name-only\<close> are blank, applying the commit
  fails with "nothing staged" and that read is the last call made: no commit is created.
  When the patch of the commit is not blank and \<open>git apply\<close> fails on it, applying the commit
  fails with the failure of that git command, which is the last call made.
\<close>

theorem applyCommit_nothing_staged:
  "(stageHunks git hById c s = (Inr (), sa) \<and> stageOps git oById (opsOf c) sa = (Inr (), sb)
      \<and> git (fst sb) stagedArgs None = (Some out, w) \<and> trim out = [] \<longrightarrow>
      applyCommit git hById oById c s =
        (Inl (NothingStaged (message c)), (w, snd sb @ [(stagedArgs, None, True)])))
   \<and> (groupHunks hById (hunks c) [] = Inr pbf \<and> trim (buildPatchText pbf) \<noteq> []
      \<and> git (fst s) applyArgs (Some (buildPatchText pbf)) = (None, w') \<longrightarrow>
      applyCommit git hById oById c s =
        (Inl (GitCommandFailed applyArgs),
         (w', snd s @ [(applyArgs, Some (buildPatchText pbf), False)])))"
  by (simp add: applyCommit_def commitStaged_def stageHunks_def runGit_def runGitWithStdin_def
      spawnGit_def)

theorem applyCommit_nothing_staged_witness:
  "applyCommit allSucceed (hunkById []) (opById [])
      \<lparr>message = str ''fix: x'', body = None, hunks = [], ops = None\<rparr> ((), [])
     = (Inl (NothingStaged (str ''fix: x'')), ((), [(stagedArgs, None, True)]))
   \<and> applyCommit applyFails (hunkById [hunkOf ''h1'' ''f'']) (opById [])
         \<lparr>message = str ''fix: x'', body = None, hunks = [str ''h1''], ops = None\<rparr> ((), [])
     = (Inl (GitCommandFailed applyArgs),
        ((), [(applyArgs, Some (str ''diff --git a/f b/f'' @ [10] @ str ''@@ -1 +1 @@'' @ [10]
                 @ str ''+x'' @ [10]), False)]))"
proof -
  let ?c0 = "\<lparr>message = str ''fix: x'', body = None, hunks = [], ops = None\<rparr>"
  let ?c1 = "\<lparr>message = str ''fix: x'', body = None, hunks = [str ''h1''], ops = None\<rparr>"
  let ?pbf = "[(str ''f'', ([str ''diff --git a/f b/f''], [[str ''@@ -1 +1 @@'', str ''+x'']]))]"
  have a: "stageHunks allSucceed (hunkById []) ?c0 ((), []) = (Inr (), ((), []))"
    by (simp add: stageHunks_def buildPatchText_def patchParts_def trim_def)
  have b: "stageOps allSucceed (opById []) (opsOf ?c0) ((), []) = (Inr (), ((), []))"
    by (simp add: opsOf_def orElse_def)
  have c: "allSucceed (fst ((), [])) stagedArgs None = (Some [], ())"
    by (simp add: allSucceed_def)
  have g: "groupHunks (hunkById [hunkOf ''h1'' ''f'']) (hunks ?c1) [] = Inr ?pbf"
    by (simp add: hunkById_def newMap_def mapGet_def hunkOf_def orElse_def)
  have p: "buildPatchText ?pbf = str ''diff --git a/f b/f'' @ [10] @ str ''@@ -1 +1 @@'' @ [10]
                 @ str ''+x'' @ [10]"
    by (simp add: buildPatchText_def patchParts_def)
  have t: "trim (buildPatchText ?pbf) \<noteq> []"
    unfolding p by (simp add: trim_def isWhiteSpace_def isLineTerminator_def)
  have f: "applyFails (fst ((), [])) applyArgs (Some (buildPatchText ?pbf)) = (None, ())"
    by (simp add: applyFails_def)
  have e: "trim [] = []"
    by (simp add: trim_def)
  have A: "applyCommit allSucceed (hunkById []) (opById []) ?c0 ((), [])
      = (Inl (NothingStaged (message ?c0)), ((), snd ((), []::gitcall list) @ [(stagedArgs, None, True)]))"
    by (rule applyCommit_nothing_staged [where git = allSucceed and hById = "hunkById []"
          and c = ?c0 and s = "((), [])" and sa = "((), [])" and oById = "opById []"
          and sb = "((), [])" and out = "[]" and w = "()", THEN conjunct1, THEN mp])
       (intro conjI a b c e)
  have B: "applyCommit applyFails (hunkById [hunkOf ''h1'' ''f'']) (opById []) ?c1 ((), [])
      = (Inl (GitCommandFailed applyArgs),
         ((), snd ((), []::gitcall list) @ [(applyArgs, Some (buildPatchText ?pbf), False)]))"
    by (rule applyCommit_nothing_staged [where git = applyFails
          and hById = "hunkById [hunkOf ''h1'' ''f'']" and c = ?c1 and pbf = ?pbf and s = "((), [])"
          and w' = "()" and oById = "opById []", THEN conjunct2, THEN mp])
       (intro conjI g t f)
  show ?thesis
    unfolding A B p by simp
qed

section \<open>No reset after a failure\<close>



section \<open>Hunks and operations of a snapshot do not share a path\<close>

lemma foldl_insert_path:
  "foldl (\<lambda>paths op. insert (path op) paths) P os = P \<union> path ` set os"
  by (induction os arbitrary: P) auto

text \<open>
  Claim C7. In every snapshot that \<open>collectWorkingTreeSnapshot\<close> returns, whatever the
  status text, the binary operations and the hunks found in the diff, no hunk has a \<open>file\<close>
  equal to the \<open>path\<close> of an operation of the snapshot.
\<close>

theorem snapshot_hunks_avoid_op_paths:
  "collectWorkingTreeSnapshot sha1 statusRaw binaryOps allHunks = Inr (hs, os) \<Longrightarrow>
     \<forall>h \<in> set hs. \<forall>op \<in> set os. hunk_file h \<noteq> path op"
  by (auto simp: collectWorkingTreeSnapshot_def Let_def foldl_insert_path split: if_splits)

theorem snapshot_hunks_avoid_op_paths_witness:
  "collectWorkingTreeSnapshot (\<lambda>s. s) (str ''? b.txt'' @ [0]) []
      [hunkOf ''h1'' ''a.txt'', hunkOf ''h2'' ''b.txt'']
     = Inr ([hunkOf ''h1'' ''a.txt''], [makeOp (\<lambda>s. s) Add (str ''b.txt'') None])
   \<and> hunk_file (hunkOf ''h1'' ''a.txt'') \<noteq> path (makeOp (\<lambda>s. s) Add (str ''b.txt'') None)"
proof -
  have run: "collectWorkingTreeSnapshot (\<lambda>s. s) (str ''? b.txt'' @ [0]) []
      [hunkOf ''h1'' ''a.txt'', hunkOf ''h2'' ''b.txt'']
     = Inr ([hunkOf ''h1'' ''a.txt''], [makeOp (\<lambda>s. s) Add (str ''b.txt'') None])"
    by (simp add: collectWorkingTreeSnapshot_def parsePorcelainV2Z_def tokensOf_def
        recordStep_def startsWith_def charAt_def pushOp_def makeOp_def kindName_def orElse_def
        dedupeOps_def newMap_def hunkOf_def Let_def)
  from snapshot_hunks_avoid_op_paths [OF run]
  have "hunk_file (hunkOf ''h1'' ''a.txt'') \<noteq> path (makeOp (\<lambda>s. s) Add (str ''b.txt'') None)"
    by simp
  with run show ?thesis by blast
qed

section \<open>Records of the status parser\<close>

lemma splitOn_not_Nil: "splitOn sep s \<noteq> []"
  by (induction s) (auto split: list.splits)

lemma splitOn_field: "sep \<notin> set f \<Longrightarrow> splitOn sep (f @ sep # rest) = f # splitOn sep rest"
  by (induction f) auto

lemma splitOn_fields:
  "\<forall>f \<in> set flds. sep \<notin> set f \<Longrightarrow>
     splitOn sep (concat (map (\<lambda>f. f @ [sep]) flds) @ p) = flds @ splitOn sep p"
  by (induction flds) (auto simp: splitOn_field)

lemma join_splitOn: "join [sep] (splitOn sep s) = s"
proof (induction s)
  case Nil
  show ?case by simp
next
  case (Cons c s)
  obtain q qs where q: "splitOn sep s = q # qs"
    using splitOn_not_Nil [of sep s] by (cases "splitOn sep s") auto
  show ?case
  proof (cases "c = sep")
    case True
    with Cons q show ?thesis by simp
  next
    case False
    with Cons q show ?thesis by (cases qs) auto
  qed
qed

lemma startsWith_hash: "startsWith t (str ''#'') \<longleftrightarrow> charAt t 0 = Some (chr CHR ''#'')"
  by (cases t) (auto simp: startsWith_def charAt_def)

lemma recordStep_unrecognized: "unrecognized t \<Longrightarrow> recordStep sha1 t next acc = (acc, False)"
  by (auto simp: unrecognized_def recordStep_def startsWith_hash Let_def)

lemma parseTokens_unrecognized:
  "unrecognized t \<Longrightarrow> parseTokens sha1 (t # rest) acc = parseTokens sha1 rest acc"
  by (simp add: recordStep_unrecognized)

lemma parseTokens_all_unrecognized:
  "\<forall>t \<in> set ts. unrecognized t \<Longrightarrow> parseTokens sha1 ts acc = acc"
  by (induction ts) (simp_all add: recordStep_unrecognized)

lemma recordStep_hasUnmerged:
  "recordStep sha1 t next acc = (acc', skip) \<Longrightarrow> hasUnmerged acc' \<Longrightarrow>
     hasUnmerged acc \<or> charAt t 0 = Some (chr CHR ''u'')"
  by (auto simp: recordStep_def Let_def pushOp_def split: if_splits)

lemma parseTokens_hasUnmerged:
  "hasUnmerged (parseTokens sha1 ts acc) \<Longrightarrow>
     hasUnmerged acc \<or> (\<exists>t \<in> set ts. charAt t 0 = Some (chr CHR ''u''))"
proof (induction ts arbitrary: acc rule: length_induct)
  case (1 ts)
  show ?case
  proof (cases ts)
    case Nil
    with 1 show ?thesis by simp
  next
    case (Cons t rest)
    obtain acc' skip where st: "recordStep sha1 t (charAt rest 0) acc = (acc', skip)"
      by (cases "recordStep sha1 t (charAt rest 0) acc")
    let ?rest = "if skip then drop 1 rest else rest"
    have len: "length ?rest < length ts" using Cons by auto
    have "hasUnmerged (parseTokens sha1 ?rest acc')"
      using 1(2) Cons st by simp
    with 1(1) len have "hasUnmerged acc' \<or> (\<exists>t \<in> set ?rest. charAt t 0 = Some (chr CHR ''u''))"
      by blast
    moreover have "set ?rest \<subseteq> set rest"
      by (auto dest: in_set_dropD)
    ultimately show ?thesis
      using recordStep_hasUnmerged [OF st] Cons by auto
  qed
qed

text \<open>
  Claim C9. \<open>parsePorcelainV2Z\<close> is a total function with no error result: the source has no
  \<open>throw\<close>, a read out of range gives \<open>undefined\<close>, and the loop ends, as the termination
  proof of \<open>parseTokens\<close> shows. At an unrecognised record the parser goes on to the next
  token with its state unchanged: no operation, no unsplittable path, no conflict flag. A
  text of unrecognised records only gives the empty result, and the conflict flag is set
  only when some token begins with \<open>u\<close>.
\<close>

theorem unrecognized_records_ignored:
  "(unrecognized t \<longrightarrow> parseTokens sha1 (t # rest) acc = parseTokens sha1 rest acc)
   \<and> ((\<forall>t \<in> set (tokensOf raw). unrecognized t) \<longrightarrow> parsePorcelainV2Z sha1 raw = emptyStatus)
   \<and> ((\<forall>t \<in> set (tokensOf raw). charAt t 0 \<noteq> Some (chr CHR ''u'')) \<longrightarrow>
        \<not> hasUnmerged (parsePorcelainV2Z sha1 raw))"
proof (intro conjI impI)
  assume "unrecognized t"
  then show "parseTokens sha1 (t # rest) acc = parseTokens sha1 rest acc"
    by (rule parseTokens_unrecognized)
next
  assume "\<forall>t \<in> set (tokensOf raw). unrecognized t"
  then show "parsePorcelainV2Z sha1 raw = emptyStatus"
    by (simp add: parsePorcelainV2Z_def emptyStatus_def parseTokens_all_unrecognized)
next
  assume a: "\<forall>t \<in> set (tokensOf raw). charAt t 0 \<noteq> Some (chr CHR ''u'')"
  show "\<not> hasUnmerged (parsePorcelainV2Z sha1 raw)"
  proof
    assume "hasUnmerged (parsePorcelainV2Z sha1 raw)"
    then have "hasUnmerged (parseTokens sha1 (tokensOf raw)
        \<lparr>status_ops = [], unsplittablePaths = {}, hasUnmerged = False\<rparr>)"
      by (simp add: parsePorcelainV2Z_def)
    from parseTokens_hasUnmerged [OF this]
    have "\<exists>t \<in> set (tokensOf raw). charAt t 0 = Some (chr CHR ''u'')"
      by simp
    with a show False by blast
  qed
qed

theorem unrecognized_records_ignored_witness:
  "parsePorcelainV2Z (\<lambda>s. s)
     (str ''x future record'' @ [0] @ str ''1 .D short'' @ [0] @ str ''2 R. short'' @ [0])
   = emptyStatus"
proof -
  have "\<forall>t \<in> set (tokensOf
     (str ''x future record'' @ [0] @ str ''1 .D short'' @ [0] @ str ''2 R. short'' @ [0])).
       unrecognized t"
    by (simp add: tokensOf_def unrecognized_def charAt_def)
  then show ?thesis
    using unrecognized_records_ignored by blast
qed

lemma splitOn_plain: "sep \<notin> set f \<Longrightarrow> splitOn sep f = [f]"
  by (induction f) auto

lemma splitOn_join:
  "flds \<noteq> [] \<Longrightarrow> \<forall>f \<in> set flds. sep \<notin> set f \<Longrightarrow> splitOn sep (join [sep] flds) = flds"
proof (induction flds)
  case Nil
  then show ?case by simp
next
  case (Cons f fs)
  show ?case
  proof (cases fs)
    case Nil
    with Cons.prems show ?thesis by (simp add: splitOn_plain)
  next
    case (Cons g gs)
    with Cons.prems Cons.IH have "splitOn sep (join [sep] fs) = fs" by simp
    with Cons Cons.prems show ?thesis by (simp add: splitOn_field)
  qed
qed

lemma pushOp_makeOp:
  "pushOp (makeOp sha1 k p orig) acc =
     acc\<lparr>status_ops := status_ops acc @
            [\<lparr>op_id = str ''op'' @ take 10 (sha1 (kindName k @ str ''|'' @ orElse orig [] @ str ''|'' @ p)),
              kind = k, path = p, origPath = orig\<rparr>],
         unsplittablePaths := insert p (unsplittablePaths acc)\<rparr>"
  by (simp add: pushOp_def makeOp_def Let_def)

lemma recordStep_ordinary:
  assumes "length flds = 8" and "\<forall>f \<in> set flds. chr CHR '' '' \<notin> set f"
    and "charAt (flds ! 0) 0 = Some (chr CHR ''1'')"
  shows "recordStep sha1 (concat (map (\<lambda>f. f @ str '' '') flds) @ p) next acc =
     (let x = orElse (charAt (flds ! 1) 0) (chr CHR ''.'');
          y = orElse (charAt (flds ! 1) 1) (chr CHR ''.'')
      in if x = chr CHR ''D'' \<or> y = chr CHR ''D'' then pushOp (makeOp sha1 Delete p None) acc
         else if x = chr CHR ''T'' \<or> y = chr CHR ''T''
           then pushOp (makeOp sha1 Typechange p None) acc
         else acc, False)"
proof -
  define t where "t = concat (map (\<lambda>f. f @ str '' '') flds) @ p"
  define parts where "parts = splitOn (chr CHR '' '') t"
  obtain f0 fs where flds: "flds = f0 # fs" using assms(1) by (cases flds) auto
  obtain c0 f0' where f0: "f0 = c0 # f0'" "c0 = chr CHR ''1''"
    using assms(3) flds by (cases f0) (auto simp: charAt_def)
  have k: "charAt t 0 = Some (chr CHR ''1'')"
    using flds f0 by (simp add: charAt_def t_def)
  have ne: "t \<noteq> []" using flds f0 by (simp add: t_def)
  have parts: "parts = flds @ splitOn (chr CHR '' '') p"
    unfolding parts_def t_def
    using splitOn_fields [of flds "chr CHR '' ''" p] assms(2) by simp
  have len: "\<not> length parts < 9"
    unfolding parts
    using assms(1) splitOn_not_Nil [of "chr CHR '' ''" p]
    by (cases "splitOn (chr CHR '' '') p") simp_all
  have p1: "charAt parts 1 = Some (flds ! 1)"
    unfolding parts
    using assms(1) by (simp add: charAt_def nth_append)
  have pth: "join (str '' '') (drop 8 parts) = p"
    unfolding parts
    using assms(1) join_splitOn [of "chr CHR '' ''" p] by simp
  have "recordStep sha1 t next acc =
     (let x = orElse (charAt (flds ! 1) 0) (chr CHR ''.'');
          y = orElse (charAt (flds ! 1) 1) (chr CHR ''.'')
      in if x = chr CHR ''D'' \<or> y = chr CHR ''D'' then pushOp (makeOp sha1 Delete p None) acc
         else if x = chr CHR ''T'' \<or> y = chr CHR ''T''
           then pushOp (makeOp sha1 Typechange p None) acc
         else acc, False)"
    unfolding recordStep_def startsWith_hash k parts_def [symmetric] Let_def
    using ne len p1 pth
    by (simp add: orElse_def)
  then show ?thesis
    unfolding t_def [symmetric] .
qed

lemma recordStep_eight_fields:
  assumes "length flds = 8" and "\<forall>f \<in> set flds. chr CHR '' '' \<notin> set f"
    and "charAt (flds ! 0) 0 = Some (chr CHR ''1'')"
  shows "recordStep sha1 (join (str '' '') flds) next acc = (acc, False)"
proof -
  define t where "t = join (str '' '') flds"
  define parts where "parts = splitOn (chr CHR '' '') t"
  obtain f0 fs where flds: "flds = f0 # fs" using assms(1) by (cases flds) auto
  obtain c0 f0' where f0: "f0 = c0 # f0'" "c0 = chr CHR ''1''"
    using assms(3) flds by (cases f0) (auto simp: charAt_def)
  have "t = f0 \<or> (\<exists>r. t = f0 @ r)"
    unfolding t_def flds by (cases fs) auto
  then have k: "charAt t 0 = Some (chr CHR ''1'')"
    using f0 by (auto simp: charAt_def)
  have "flds \<noteq> []" using flds by simp
  then have "parts = flds"
    unfolding parts_def t_def
    using splitOn_join [of flds "chr CHR '' ''"] assms(2) by simp
  then have len: "length parts < 9" using assms(1) by simp
  have ne: "t \<noteq> []" using k by (auto simp: charAt_def)
  have "recordStep sha1 t next acc = (acc, False)"
    unfolding recordStep_def startsWith_hash k parts_def [symmetric] Let_def
    using ne len by simp
  then show ?thesis unfolding t_def .
qed

text \<open>
  Claim C6, as stated, fails. A record whose XY code is \<open>TD\<close> has a \<open>T\<close>, and the parser
  adds a delete operation and no type-change operation. A record with the eight leading
  fields and nothing after them, whose XY code has a \<open>D\<close>, adds no operation.
\<close>

theorem ordinary_record_precedence_counterexample:
  "map kind (status_ops (parsePorcelainV2Z (\<lambda>s. s)
       (str ''1 TD N... 100644 100644 100644 abc def a.txt'' @ [0])))
     = [Delete]
   \<and> status_ops (parsePorcelainV2Z (\<lambda>s. s)
       (str ''1 D. N... 100644 100644 000000 abc def'' @ [0]))
     = []"
  by (simp add: parsePorcelainV2Z_def tokensOf_def recordStep_def startsWith_def charAt_def
      pushOp_def makeOp_def kindName_def orElse_def Let_def)

text \<open>
  Claim C6, amended. Take a token that begins with \<open>1\<close> and has its eight leading fields,
  each followed by a space, and then the text \<open>p\<close>. The parser takes \<open>p\<close> as the path,
  whatever spaces it holds. With \<open>x\<close> and \<open>y\<close> the first two characters of the second field:
  when \<open>x\<close> or \<open>y\<close> is \<open>D\<close> it adds one operation of kind delete with path \<open>p\<close>, no original
  path and the id made from \<open>delete||p\<close>, and adds \<open>p\<close> to the unsplittable paths; otherwise,
  when \<open>x\<close> or \<open>y\<close> is \<open>T\<close>, it does the same with kind type-change; otherwise it changes
  nothing. A token with the eight fields only, and no space after the last, changes
  nothing. In each case the parser goes on to the next token.
\<close>

theorem ordinary_record_classified:
  assumes "length flds = 8" and "\<forall>f \<in> set flds. chr CHR '' '' \<notin> set f"
    and "charAt (flds ! 0) 0 = Some (chr CHR ''1'')"
  shows "parseTokens sha1 ((concat (map (\<lambda>f. f @ str '' '') flds) @ p) # rest) acc =
     parseTokens sha1 rest
       (let x = orElse (charAt (flds ! 1) 0) (chr CHR ''.'');
            y = orElse (charAt (flds ! 1) 1) (chr CHR ''.'')
        in if x = chr CHR ''D'' \<or> y = chr CHR ''D''
           then acc\<lparr>status_ops := status_ops acc @
                    [\<lparr>op_id = str ''op'' @ take 10 (sha1 (str ''delete||'' @ p)),
                      kind = Delete, path = p, origPath = None\<rparr>],
                  unsplittablePaths := insert p (unsplittablePaths acc)\<rparr>
           else if x = chr CHR ''T'' \<or> y = chr CHR ''T''
           then acc\<lparr>status_ops := status_ops acc @
                    [\<lparr>op_id = str ''op'' @ take 10 (sha1 (str ''typechange||'' @ p)),
                      kind = Typechange, path = p, origPath = None\<rparr>],
                  unsplittablePaths := insert p (unsplittablePaths acc)\<rparr>
           else acc)
   \<and> parseTokens sha1 (join (str '' '') flds # rest) acc = parseTokens sha1 rest acc"
proof
  show "parseTokens sha1 ((concat (map (\<lambda>f. f @ str '' '') flds) @ p) # rest) acc =
     parseTokens sha1 rest
       (let x = orElse (charAt (flds ! 1) 0) (chr CHR ''.'');
            y = orElse (charAt (flds ! 1) 1) (chr CHR ''.'')
        in if x = chr CHR ''D'' \<or> y = chr CHR ''D''
           then acc\<lparr>status_ops := status_ops acc @
                    [\<lparr>op_id = str ''op'' @ take 10 (sha1 (str ''delete||'' @ p)),
                      kind = Delete, path = p, origPath = None\<rparr>],
                  unsplittablePaths := insert p (unsplittablePaths acc)\<rparr>
           else if x = chr CHR ''T'' \<or> y = chr CHR ''T''
           then acc\<lparr>status_ops := status_ops acc @
                    [\<lparr>op_id = str ''op'' @ take 10 (sha1 (str ''typechange||'' @ p)),
                      kind = Typechange, path = p, origPath = None\<rparr>],
                  unsplittablePaths := insert p (unsplittablePaths acc)\<rparr>
           else acc)"
    unfolding parseTokens.simps recordStep_ordinary [OF assms]
    by (simp add: Let_def pushOp_makeOp kindName_def orElse_def)
next
  show "parseTokens sha1 (join (str '' '') flds # rest) acc = parseTokens sha1 rest acc"
    unfolding parseTokens.simps recordStep_eight_fields [OF assms] by simp
qed

theorem ordinary_record_classified_witness:
  "parseTokens (\<lambda>s. s) [str ''1 .D N... 100644 100644 000000 abc def my file.txt'']
      emptyStatus
   = \<lparr>status_ops = [\<lparr>op_id = str ''opdelete||my'', kind = Delete,
                       path = str ''my file.txt'', origPath = None\<rparr>],
      unsplittablePaths = {str ''my file.txt''}, hasUnmerged = False\<rparr>
   \<and> parseTokens (\<lambda>s. s) [str ''1 .D N... 100644 100644 000000 abc def''] emptyStatus
     = emptyStatus"
proof -
  let ?flds = "[str ''1'', str ''.D'', str ''N...'', str ''100644'', str ''100644'',
     str ''000000'', str ''abc'', str ''def'']"
  have a: "length ?flds = 8" by simp
  have b: "\<forall>f \<in> set ?flds. chr CHR '' '' \<notin> set f" by simp
  have c: "charAt (?flds ! 0) 0 = Some (chr CHR ''1'')" by (simp add: charAt_def)
  from ordinary_record_classified [OF a b c, of "\<lambda>s. s" "str ''my file.txt''" "[]" emptyStatus]
  show ?thesis
    by (simp add: charAt_def orElse_def emptyStatus_def)
qed

section \<open>The first balanced object\<close>

lemma scan_body:
  "b \<in> strBody \<Longrightarrow>
     scan (b @ chr CHR 0x22 # rest) d True False n = scan rest d False False (n + length b + 1)"
  by (induction arbitrary: n rule: strBody.induct) simp_all

lemma scan_content:
  "u \<in> content \<Longrightarrow> 1 \<le> d \<Longrightarrow>
     scan (u @ rest) d False False n = scan rest d False False (n + length u)"
proof (induction arbitrary: d n rest rule: content.induct)
  case content_nil
  show ?case by simp
next
  case (content_char c w)
  then show ?case by simp
next
  case (content_str b w)
  have "scan ((chr CHR 0x22 # b @ chr CHR 0x22 # w) @ rest) d False False n
      = scan (b @ chr CHR 0x22 # (w @ rest)) d True False (n + 1)"
    by simp
  also have "\<dots> = scan (w @ rest) d False False (n + 1 + length b + 1)"
    using content_str.hyps(1) by (rule scan_body)
  also have "\<dots> = scan rest d False False (n + 1 + length b + 1 + length w)"
    using content_str.prems by (rule content_str.IH)
  finally show ?case by (simp add: add.assoc)
next
  case (content_obj u w)
  have "scan ((chr CHR ''{'' # u @ chr CHR ''}'' # w) @ rest) d False False n
      = scan (u @ (chr CHR ''}'' # w @ rest)) (d + 1) False False (n + 1)"
    by simp
  also have "\<dots> = scan (chr CHR ''}'' # w @ rest) (d + 1) False False (n + 1 + length u)"
    using content_obj.prems by (intro content_obj.IH(1)) simp_all
  also have "\<dots> = scan (w @ rest) d False False (n + 1 + length u + 1)"
    using content_obj.prems by simp
  also have "\<dots> = scan rest d False False (n + 1 + length u + 1 + length w)"
    using content_obj.prems by (rule content_obj.IH(2))
  finally show ?case by (simp add: add.assoc)
qed

lemma scan_object:
  assumes "u \<in> content"
  shows "scan (chr CHR ''{'' # u @ chr CHR ''}'' # post) 0 False False 0 = Some (length u + 2)"
proof -
  have "scan (chr CHR ''{'' # u @ chr CHR ''}'' # post) 0 False False 0
      = scan (u @ (chr CHR ''}'' # post)) 1 False False 1"
    by simp
  also have "\<dots> = scan (chr CHR ''}'' # post) 1 False False (1 + length u)"
    using assms by (intro scan_content) simp_all
  also have "\<dots> = Some (length u + 2)"
    by simp
  finally show ?thesis .
qed

lemma trim_id:
  assumes "s \<noteq> []" and "\<not> isWhiteSpace (hd s)" and "\<not> isWhiteSpace (last s)"
  shows "trim s = s"
proof -
  have 1: "dropWhile isWhiteSpace s = s"
    using assms(1,2) by (cases s) simp_all
  have "rev s \<noteq> []" "\<not> isWhiteSpace (hd (rev s))"
    using assms(1,3) by (simp_all add: hd_rev)
  then have 2: "dropWhile isWhiteSpace (rev s) = rev s"
    by (cases "rev s") simp_all
  show ?thesis by (simp add: trim_def 1 2)
qed

lemma trim_object: "trim (chr CHR ''{'' # u @ [chr CHR ''}'']) = chr CHR ''{'' # u @ [chr CHR ''}'']"
  by (rule trim_id) (simp_all add: isWhiteSpace_def isLineTerminator_def)

lemma dropWhile_until:
  "a \<notin> set pre \<Longrightarrow> dropWhile (\<lambda>c. c \<noteq> a) (pre @ a # rest) = a # rest"
  by (induction pre) auto

lemma extract_complete:
  assumes "chr CHR ''{'' \<notin> set pre" and "balancedObject obj"
  shows "extractJsonObjectBalanced (pre @ obj @ post) = Inr obj"
proof -
  obtain u where u: "u \<in> content" "obj = chr CHR ''{'' # u @ [chr CHR ''}'']"
    using assms(2) by (auto simp: balancedObject_def)
  have d: "dropWhile (\<lambda>c. c \<noteq> chr CHR ''{'') (pre @ obj @ post) = chr CHR ''{'' # u @ chr CHR ''}'' # post"
    using assms(1) u(2) dropWhile_until [of "chr CHR ''{''" pre "u @ chr CHR ''}'' # post"]
    by simp
  have t: "take (length u + 2) (chr CHR ''{'' # u @ chr CHR ''}'' # post) = chr CHR ''{'' # u @ [chr CHR ''}'']"
    by simp
  show ?thesis
    unfolding extractJsonObjectBalanced_def d Let_def scan_object [OF u(1)]
    using t trim_object [of u] u(2) by simp
qed

lemmas content_rules = content.content_nil content.content_char [simplified]
  content.content_str [simplified] content.content_obj [simplified]

lemmas strBody_rules = strBody.body_nil strBody.body_char [simplified]
  strBody.body_esc [simplified]

lemma closes_close: "closes k w \<Longrightarrow> closes (Suc k) (chr CHR ''}'' # w)"
proof -
  assume "closes k w"
  then obtain us where us: "length us = k" "set us \<subseteq> content"
      "w = concat (map (\<lambda>u. u @ [chr CHR ''}'']) us)"
    by (auto simp: closes_def)
  have "length ([] # us) = Suc k" "set ([] # us) \<subseteq> content"
    "chr CHR ''}'' # w = concat (map (\<lambda>u. u @ [chr CHR ''}'']) ([] # us))"
    using us by (simp_all add: content_rules)
  then show ?thesis unfolding closes_def by blast
qed

lemma closes_zero: "closes 0 []"
  by (simp add: closes_def)

lemma closes_first:
  assumes "closes k w" and "1 \<le> k"
  obtains u us where "u \<in> content" "length us = k - 1" "set us \<subseteq> content"
    "w = u @ chr CHR ''}'' # concat (map (\<lambda>u. u @ [chr CHR ''}'']) us)"
proof -
  from assms(1) obtain vs where vs: "length vs = k" "set vs \<subseteq> content"
      "w = concat (map (\<lambda>u. u @ [chr CHR ''}'']) vs)"
    by (auto simp: closes_def)
  with assms(2) obtain u us where "vs = u # us" by (cases vs) auto
  with vs show ?thesis by (intro that [of u us]) auto
qed

lemma closes_prepend:
  assumes "closes k w" and "1 \<le> k" and "\<And>u. u \<in> content \<Longrightarrow> p @ u \<in> content"
  shows "closes k (p @ w)"
proof -
  from assms(1,2) obtain u us where u: "u \<in> content" "length us = k - 1" "set us \<subseteq> content"
    "w = u @ chr CHR ''}'' # concat (map (\<lambda>u. u @ [chr CHR ''}'']) us)"
    by (rule closes_first)
  have "length ((p @ u) # us) = k" "set ((p @ u) # us) \<subseteq> content"
    "p @ w = concat (map (\<lambda>u. u @ [chr CHR ''}'']) ((p @ u) # us))"
    using u assms(2,3) by simp_all
  then show ?thesis unfolding closes_def by blast
qed

lemma closes_char:
  assumes "closes k w" and "1 \<le> k" and "c \<noteq> chr CHR 0x22" and "c \<noteq> chr CHR ''{''"
    and "c \<noteq> chr CHR ''}''"
  shows "closes k (c # w)"
proof -
  have "[c] @ u \<in> content" if "u \<in> content" for u
    using content.content_char [OF assms(3-5) that] by simp
  from closes_prepend [OF assms(1,2) this] show ?thesis by simp
qed

lemma closes_str:
  assumes "closes k w" and "1 \<le> k" and "b \<in> strBody"
  shows "closes k (chr CHR 0x22 # b @ chr CHR 0x22 # w)"
proof -
  have "(chr CHR 0x22 # b @ [chr CHR 0x22]) @ u \<in> content" if "u \<in> content" for u
    using content.content_str [OF assms(3) that] by simp
  from closes_prepend [OF assms(1,2) this] show ?thesis by simp
qed

lemma closes_open:
  assumes "closes (Suc k) w" and "1 \<le> k"
  shows "closes k (chr CHR ''{'' # w)"
proof -
  from assms(1) obtain u us where u: "u \<in> content" "length us = k" "set us \<subseteq> content"
    "w = u @ chr CHR ''}'' # concat (map (\<lambda>u. u @ [chr CHR ''}'']) us)"
    by (rule closes_first) simp_all
  with assms(2) obtain v vs where vs: "us = v # vs" by (cases us) auto
  have "length ((chr CHR ''{'' # u @ chr CHR ''}'' # v) # vs) = k"
    "set ((chr CHR ''{'' # u @ chr CHR ''}'' # v) # vs) \<subseteq> content"
    "chr CHR ''{'' # w
       = concat (map (\<lambda>u. u @ [chr CHR ''}'']) ((chr CHR ''{'' # u @ chr CHR ''}'' # v) # vs))"
    using u vs by (simp_all add: content_rules)
  then show ?thesis unfolding closes_def by blast
qed

lemma closes_one: "closes 1 w \<longleftrightarrow> (\<exists>u. u \<in> content \<and> w = u @ [chr CHR ''}''])"
proof
  assume "closes 1 w"
  then obtain u us where "u \<in> content" "length us = 1 - 1"
    "w = u @ chr CHR ''}'' # concat (map (\<lambda>u. u @ [chr CHR ''}'']) us)"
    by (rule closes_first) simp
  then show "\<exists>u. u \<in> content \<and> w = u @ [chr CHR ''}'']" by auto
next
  assume "\<exists>u. u \<in> content \<and> w = u @ [chr CHR ''}'']"
  then obtain u where "u \<in> content" "w = u @ [chr CHR ''}'']" by blast
  then have "length [u] = 1" "set [u] \<subseteq> content" "w = concat (map (\<lambda>u. u @ [chr CHR ''}'']) [u])"
    by simp_all
  then show "closes 1 w" unfolding closes_def by blast
qed

lemma outside_char:
  "outside k cs (Suc n) m \<Longrightarrow> 1 \<le> k \<Longrightarrow> c \<noteq> chr CHR 0x22 \<Longrightarrow> c \<noteq> chr CHR ''{'' \<Longrightarrow> c \<noteq> chr CHR ''}''
     \<Longrightarrow> outside k (c # cs) n m"
proof -
  assume a: "outside k cs (Suc n) m" "1 \<le> k" "c \<noteq> chr CHR 0x22" "c \<noteq> chr CHR ''{''"
    "c \<noteq> chr CHR ''}''"
  then obtain w rest where w: "cs = w @ rest" "m = Suc n + length w" "closes k w"
    by (auto simp: outside_def)
  have "c # cs = (c # w) @ rest" "m = n + length (c # w)" "closes k (c # w)"
    using w closes_char [OF w(3) a(2-5)] by simp_all
  then show ?thesis unfolding outside_def by blast
qed

lemma outside_open:
  "outside (Suc k) cs (Suc n) m \<Longrightarrow> 1 \<le> k \<Longrightarrow> outside k (chr CHR ''{'' # cs) n m"
proof -
  assume a: "outside (Suc k) cs (Suc n) m" "1 \<le> k"
  then obtain w rest where w: "cs = w @ rest" "m = Suc n + length w" "closes (Suc k) w"
    by (auto simp: outside_def)
  have "chr CHR ''{'' # cs = (chr CHR ''{'' # w) @ rest" "m = n + length (chr CHR ''{'' # w)"
    "closes k (chr CHR ''{'' # w)"
    using w closes_open [OF w(3) a(2)] by simp_all
  then show ?thesis unfolding outside_def by blast
qed

lemma outside_close:
  "outside k cs (Suc n) m \<Longrightarrow> outside (Suc k) (chr CHR ''}'' # cs) n m"
proof -
  assume a: "outside k cs (Suc n) m"
  then obtain w rest where w: "cs = w @ rest" "m = Suc n + length w" "closes k w"
    by (auto simp: outside_def)
  have "chr CHR ''}'' # cs = (chr CHR ''}'' # w) @ rest" "m = n + length (chr CHR ''}'' # w)"
    "closes (Suc k) (chr CHR ''}'' # w)"
    using w closes_close [OF w(3)] by simp_all
  then show ?thesis unfolding outside_def by blast
qed

lemma outside_last: "outside 1 (chr CHR ''}'' # cs) n (Suc n)"
proof -
  have "chr CHR ''}'' # cs = [chr CHR ''}''] @ cs" "Suc n = n + length [chr CHR ''}'']"
    "closes 1 [chr CHR ''}'']"
    using closes_close [OF closes_zero] by simp_all
  then show ?thesis unfolding outside_def by blast
qed

lemma outside_quote:
  "inside k cs (Suc n) m \<Longrightarrow> 1 \<le> k \<Longrightarrow> outside k (chr CHR 0x22 # cs) n m"
proof -
  assume a: "inside k cs (Suc n) m" "1 \<le> k"
  then obtain b w rest where w: "cs = b @ chr CHR 0x22 # w @ rest" "b \<in> strBody"
    "m = Suc n + length b + 1 + length w" "closes k w"
    by (auto simp: inside_def)
  have "chr CHR 0x22 # cs = (chr CHR 0x22 # b @ chr CHR 0x22 # w) @ rest"
    "m = n + length (chr CHR 0x22 # b @ chr CHR 0x22 # w)"
    "closes k (chr CHR 0x22 # b @ chr CHR 0x22 # w)"
    using w closes_str [OF w(4) a(2) w(2)] by simp_all
  then show ?thesis unfolding outside_def by blast
qed

lemma inside_quote: "outside k cs (Suc n) m \<Longrightarrow> inside k (chr CHR 0x22 # cs) n m"
proof -
  assume "outside k cs (Suc n) m"
  then obtain w rest where w: "cs = w @ rest" "m = Suc n + length w" "closes k w"
    by (auto simp: outside_def)
  have "chr CHR 0x22 # cs = [] @ chr CHR 0x22 # w @ rest" "[] \<in> strBody"
    "m = n + length ([]::jsstring) + 1 + length w" "closes k w"
    using w by (simp_all add: strBody_rules)
  then show ?thesis unfolding inside_def by blast
qed

lemma inside_char:
  "inside k cs (Suc n) m \<Longrightarrow> c \<noteq> chr CHR 0x22 \<Longrightarrow> c \<noteq> chr CHR 0x5C \<Longrightarrow> inside k (c # cs) n m"
proof -
  assume a: "inside k cs (Suc n) m" "c \<noteq> chr CHR 0x22" "c \<noteq> chr CHR 0x5C"
  then obtain b w rest where w: "cs = b @ chr CHR 0x22 # w @ rest" "b \<in> strBody"
    "m = Suc n + length b + 1 + length w" "closes k w"
    by (auto simp: inside_def)
  have "c # cs = (c # b) @ chr CHR 0x22 # w @ rest" "c # b \<in> strBody"
    "m = n + length (c # b) + 1 + length w"
    using w a(2,3) by (simp_all add: strBody_rules)
  with w(4) show ?thesis unfolding inside_def by blast
qed

lemma inside_escape:
  "inside k cs (Suc (Suc n)) m \<Longrightarrow> inside k (chr CHR 0x5C # c # cs) n m"
proof -
  assume a: "inside k cs (Suc (Suc n)) m"
  then obtain b w rest where w: "cs = b @ chr CHR 0x22 # w @ rest" "b \<in> strBody"
    "m = Suc (Suc n) + length b + 1 + length w" "closes k w"
    by (auto simp: inside_def)
  have "chr CHR 0x5C # c # cs = (chr CHR 0x5C # c # b) @ chr CHR 0x22 # w @ rest"
    "chr CHR 0x5C # c # b \<in> strBody"
    "m = n + length (chr CHR 0x5C # c # b) + 1 + length w"
    using w by (simp_all add: strBody_rules)
  with w(4) show ?thesis unfolding inside_def by blast
qed

lemma scan_sound:
  "1 \<le> k \<Longrightarrow>
   (scan cs (int k) False False n = Some m \<longrightarrow> outside k cs n m)
   \<and> (scan cs (int k) True False n = Some m \<longrightarrow> inside k cs n m)
   \<and> (scan cs (int k) True True n = Some m \<longrightarrow> (\<exists>c cs'. cs = c # cs' \<and> inside k cs' (Suc n) m))"
proof (induction cs arbitrary: k n)
  case Nil
  show ?case by simp
next
  case (Cons ch cs)
  note k = \<open>1 \<le> k\<close>
  have out: "scan cs (int j) False False i = Some m \<Longrightarrow> outside j cs i m" if "1 \<le> j" for j i
    using Cons.IH [OF that, of i] by blast
  have ins: "scan cs (int j) True False i = Some m \<Longrightarrow> inside j cs i m" if "1 \<le> j" for j i
    using Cons.IH [OF that, of i] by blast
  have esc: "scan cs (int j) True True i = Some m \<Longrightarrow> \<exists>c cs'. cs = c # cs' \<and> inside j cs' (Suc i) m"
    if "1 \<le> j" for j i
    using Cons.IH [OF that, of i] by blast
  have 1: "outside k (ch # cs) n m" if s: "scan (ch # cs) (int k) False False n = Some m"
  proof -
    consider (isquote) "ch = chr CHR 0x22" | (isopening) "ch = chr CHR ''{''" | (isclosing) "ch = chr CHR ''}''"
      | (other) "ch \<noteq> chr CHR 0x22" "ch \<noteq> chr CHR ''{''" "ch \<noteq> chr CHR ''}''"
      by blast
    then show ?thesis
    proof cases
      case isquote
      with s have "scan cs (int k) True False (Suc n) = Some m" by simp
      from ins [OF k this] have "inside k cs (Suc n) m" .
      from outside_quote [OF this k] isquote show ?thesis by simp
    next
      case isopening
      with s have "scan cs (int (Suc k)) False False (Suc n) = Some m"
        by (simp add: add.commute)
      from out [OF _ this] have "outside (Suc k) cs (Suc n) m" by simp
      from outside_open [OF this k] isopening show ?thesis by simp
    next
      case isclosing
      show ?thesis
      proof (cases "k = 1")
        case True
        with s isclosing have "m = Suc n" by simp
        with True isclosing outside_last [of cs n] show ?thesis by simp
      next
        case False
        with k obtain j where j: "k = Suc j" "1 \<le> j" by (cases k) auto
        with s isclosing have "scan cs (int j) False False (Suc n) = Some m" by simp
        from out [OF j(2) this] have "outside j cs (Suc n) m" .
        from outside_close [OF this] j isclosing show ?thesis by simp
      qed
    next
      case other
      with s have "scan cs (int k) False False (Suc n) = Some m" by simp
      from out [OF k this] have "outside k cs (Suc n) m" .
      from outside_char [OF this k other] show ?thesis .
    qed
  qed
  have 2: "inside k (ch # cs) n m" if s: "scan (ch # cs) (int k) True False n = Some m"
  proof -
    consider (isbackslash) "ch = chr CHR 0x5C" | (isquote) "ch = chr CHR 0x22"
      | (other) "ch \<noteq> chr CHR 0x22" "ch \<noteq> chr CHR 0x5C"
      by blast
    then show ?thesis
    proof cases
      case isbackslash
      with s have "scan cs (int k) True True (Suc n) = Some m" by simp
      from esc [OF k this] obtain c cs' where c: "cs = c # cs'" "inside k cs' (Suc (Suc n)) m"
        by blast
      from inside_escape [OF c(2), of c] c(1) isbackslash show ?thesis by simp
    next
      case isquote
      with s have "scan cs (int k) False False (Suc n) = Some m" by simp
      from out [OF k this] have "outside k cs (Suc n) m" .
      from inside_quote [OF this] isquote show ?thesis by simp
    next
      case other
      with s have "scan cs (int k) True False (Suc n) = Some m" by simp
      from ins [OF k this] have "inside k cs (Suc n) m" .
      from inside_char [OF this other] show ?thesis .
    qed
  qed
  have 3: "\<exists>c cs'. ch # cs = c # cs' \<and> inside k cs' (Suc n) m"
    if s: "scan (ch # cs) (int k) True True n = Some m"
  proof -
    from s have "scan cs (int k) True False (Suc n) = Some m" by simp
    from ins [OF k this] show ?thesis by simp
  qed
  from 1 2 3 show ?case by blast
qed

lemma dropWhile_split:
  assumes "dropWhile (\<lambda>c. c \<noteq> a) text = rest" and "rest \<noteq> []"
  obtains pre cs where "text = pre @ a # cs" "a \<notin> set pre" "rest = a # cs"
proof -
  have t: "text = takeWhile (\<lambda>c. c \<noteq> a) text @ rest"
    using assms(1) by (metis takeWhile_dropWhile_id)
  have "hd rest = a"
    using assms hd_dropWhile [of "\<lambda>c. c \<noteq> a" "text"] by auto
  with assms(2) obtain cs where r: "rest = a # cs" by (cases rest) auto
  have "a \<notin> set (takeWhile (\<lambda>c. c \<noteq> a) text)"
    by (auto dest: set_takeWhileD)
  with t r show ?thesis by (intro that [of "takeWhile (\<lambda>c. c \<noteq> a) text" cs]) simp_all
qed

lemma extract_sound:
  assumes "extractJsonObjectBalanced text = Inr r"
  shows "\<exists>pre post. text = pre @ r @ post \<and> chr CHR ''{'' \<notin> set pre \<and> balancedObject r"
proof -
  define rest where "rest = dropWhile (\<lambda>c. c \<noteq> chr CHR ''{'') text"
  from assms have ne: "rest \<noteq> []"
    by (auto simp: extractJsonObjectBalanced_def Let_def rest_def split: if_splits)
  with assms obtain len where len: "scan rest 0 False False 0 = Some len" "r = trim (take len rest)"
    by (auto simp: extractJsonObjectBalanced_def Let_def rest_def split: if_splits option.splits)
  from rest_def [symmetric] ne obtain pre cs where
    p: "text = pre @ chr CHR ''{'' # cs" "chr CHR ''{'' \<notin> set pre" "rest = chr CHR ''{'' # cs"
    by (rule dropWhile_split)
  from len(1) p(3) have "scan cs (int 1) False False 1 = Some len" by simp
  with scan_sound [of 1 cs 1 len] have "outside 1 cs 1 len" by simp
  then obtain w post where w: "cs = w @ post" "len = 1 + length w" "closes 1 w"
    by (auto simp: outside_def)
  obtain u where u: "u \<in> content" "w = u @ [chr CHR ''}'']"
    using w(3) closes_one [of w] by auto
  have "take len rest = chr CHR ''{'' # u @ [chr CHR ''}'']"
    using p(3) w(1,2) u(2) by simp
  with len(2) have r: "r = chr CHR ''{'' # u @ [chr CHR ''}'']"
    using trim_object [of u] by simp
  have "text = pre @ r @ post" "balancedObject r"
    using p(1) w(1) u r by (auto simp: balancedObject_def)
  with p(2) show ?thesis by blast
qed

text \<open>
  Claim C8. \<open>extractJsonObjectBalanced\<close> returns \<open>r\<close> exactly when the text is some prose
  without an opening brace, then \<open>r\<close>, then any text, and \<open>r\<close> is a balanced object: braces
  inside double-quoted strings, where a backslash escapes the next character, do not count.
  Otherwise it fails, with the one error "did not return JSON", and then the text holds no
  balanced object that begins at its first opening brace.
\<close>

theorem extractJsonObjectBalanced_first_object:
  "(extractJsonObjectBalanced text = Inr r \<longleftrightarrow>
      (\<exists>pre post. text = pre @ r @ post \<and> chr CHR ''{'' \<notin> set pre \<and> balancedObject r))
   \<and> (extractJsonObjectBalanced text = Inl e \<longrightarrow>
        e = ModelDidNotReturnJson
        \<and> \<not> (\<exists>pre obj post. text = pre @ obj @ post \<and> chr CHR ''{'' \<notin> set pre
               \<and> balancedObject obj))"
proof (intro conjI iffI impI)
  assume "extractJsonObjectBalanced text = Inr r"
  then show "\<exists>pre post. text = pre @ r @ post \<and> chr CHR ''{'' \<notin> set pre \<and> balancedObject r"
    by (rule extract_sound)
next
  assume "\<exists>pre post. text = pre @ r @ post \<and> chr CHR ''{'' \<notin> set pre \<and> balancedObject r"
  then show "extractJsonObjectBalanced text = Inr r"
    using extract_complete by blast
next
  assume "extractJsonObjectBalanced text = Inl e"
  then show "e = ModelDidNotReturnJson"
    by (auto simp: extractJsonObjectBalanced_def Let_def split: if_splits option.splits)
next
  assume a: "extractJsonObjectBalanced text = Inl e"
  show "\<not> (\<exists>pre obj post. text = pre @ obj @ post \<and> chr CHR ''{'' \<notin> set pre
               \<and> balancedObject obj)"
  proof
    assume "\<exists>pre obj post. text = pre @ obj @ post \<and> chr CHR ''{'' \<notin> set pre
               \<and> balancedObject obj"
    then obtain pre obj post where "text = pre @ obj @ post" "chr CHR ''{'' \<notin> set pre"
      "balancedObject obj" by blast
    then have "extractJsonObjectBalanced text = Inr obj"
      using extract_complete by blast
    with a show False by simp
  qed
qed

theorem extractJsonObjectBalanced_first_object_witness:
  "extractJsonObjectBalanced
     (str ''plan: {'' @ [34] @ str ''a}{'' @ [92, 34, 34] @ str '':{}} and } more'')
   = Inr (str ''{'' @ [34] @ str ''a}{'' @ [92, 34, 34] @ str '':{}}'')"
proof -
  have b0: "[92, 34] \<in> strBody"
    using strBody.body_esc [OF strBody.body_nil, of 34] by simp
  have b1: "[123, 92, 34] \<in> strBody"
    using strBody.body_char [of 123, OF _ _ b0] by simp
  have b2: "[125, 123, 92, 34] \<in> strBody"
    using strBody.body_char [of 125, OF _ _ b1] by simp
  have b: "[97, 125, 123, 92, 34] \<in> strBody"
    using strBody.body_char [of 97, OF _ _ b2] by simp
  have c0: "[123, 125] \<in> content"
    using content.content_obj [OF content.content_nil content.content_nil] by simp
  have c1: "[58, 123, 125] \<in> content"
    using content.content_char [of 58, OF _ _ _ c0] by simp
  have c: "[34, 97, 125, 123, 92, 34, 34, 58, 123, 125] \<in> content"
    using content.content_str [OF b c1] by simp
  have "balancedObject (str ''{'' @ [34] @ str ''a}{'' @ [92, 34, 34] @ str '':{}}'')"
    unfolding balancedObject_def
    by (intro exI [of _ "[34, 97, 125, 123, 92, 34, 34, 58, 123, 125]"]) (simp add: c)
  moreover have "chr CHR ''{'' \<notin> set (str ''plan: '')" by simp
  moreover have "str ''plan: {'' @ [34] @ str ''a}{'' @ [92, 34, 34] @ str '':{}} and } more''
     = str ''plan: '' @ (str ''{'' @ [34] @ str ''a}{'' @ [92, 34, 34] @ str '':{}}'')
        @ str '' and } more''"
    by simp
  ultimately show ?thesis
    using extractJsonObjectBalanced_first_object
    by blast
qed

section \<open>The patch of a commit\<close>

lemma distinct_newSet: "distinct (newSet xs)"
  by (induction xs) (auto simp: set_newSet)

lemma newSet_snoc:
  "newSet (xs @ [x]) = (if x \<in> set xs then newSet xs else newSet xs @ [x])"
  by (induction xs) (auto simp: set_newSet)

lemma mapGet_keyed:
  "mapGet (map (\<lambda>f. (f, g f)) ks) k = (if k \<in> set ks then Some (g k) else None)"
  by (induction ks) (auto simp: mapGet_def)

lemma mapSet_absent:
  "k \<notin> set ks \<Longrightarrow> mapSet k v (map (\<lambda>f. (f, g f)) ks) = map (\<lambda>f. (f, g f)) ks @ [(k, v)]"
  by (induction ks) auto

lemma mapSet_present:
  "k \<in> set ks \<Longrightarrow> distinct ks \<Longrightarrow>
     mapSet k v (map (\<lambda>f. (f, g f)) ks) = map (\<lambda>f. (f, if f = k then v else g f)) ks"
proof (induction ks)
  case Nil
  then show ?case by simp
next
  case (Cons a ks)
  show ?case
  proof (cases "a = k")
    case True
    with Cons.prems have "k \<notin> set ks" by simp
    then have "map (\<lambda>f. (f, if f = k then v else g f)) ks = map (\<lambda>f. (f, g f)) ks"
      by (intro map_cong) auto
    with True show ?thesis by simp
  next
    case False
    with Cons show ?thesis by simp
  qed
qed

lemma entryOf_other:
  "f \<noteq> hunk_file h \<Longrightarrow> entryOf (prev @ [h]) f = entryOf prev f"
  by (simp add: entryOf_def)

lemma entryOf_new:
  "hunk_file h \<notin> hunk_file ` set prev \<Longrightarrow>
     entryOf (prev @ [h]) (hunk_file h) = (fileHeader h, [hunkLines h])"
proof -
  assume "hunk_file h \<notin> hunk_file ` set prev"
  then have "filter (\<lambda>x. hunk_file x = hunk_file h) prev = []"
    by (auto simp: filter_empty_conv image_iff)
  then show ?thesis by (simp add: entryOf_def)
qed

lemma entryOf_more:
  "hunk_file h \<in> hunk_file ` set prev \<Longrightarrow>
     entryOf (prev @ [h]) (hunk_file h)
       = (fst (entryOf prev (hunk_file h)), snd (entryOf prev (hunk_file h)) @ [hunkLines h])"
proof -
  assume "hunk_file h \<in> hunk_file ` set prev"
  then have "filter (\<lambda>x. hunk_file x = hunk_file h) prev \<noteq> []"
    by (auto simp: filter_empty_conv image_iff)
  then show ?thesis by (simp add: entryOf_def)
qed

lemma groupedByFile_step:
  "mapSet (hunk_file h)
     (fst (orElse (mapGet (groupedByFile prev) (hunk_file h)) (fileHeader h, [])),
      snd (orElse (mapGet (groupedByFile prev) (hunk_file h)) (fileHeader h, [])) @ [hunkLines h])
     (groupedByFile prev)
   = groupedByFile (prev @ [h])"
proof (cases "hunk_file h \<in> hunk_file ` set prev")
  case True
  let ?ks = "newSet (map hunk_file prev)"
  let ?e = "(fst (entryOf prev (hunk_file h)), snd (entryOf prev (hunk_file h)) @ [hunkLines h])"
  from True have k: "hunk_file h \<in> set ?ks"
    by (simp add: set_newSet)
  have g: "mapGet (groupedByFile prev) (hunk_file h) = Some (entryOf prev (hunk_file h))"
    using k by (simp add: groupedByFile_def mapGet_keyed)
  have ks: "newSet (map hunk_file (prev @ [h])) = ?ks"
    using True by (simp add: newSet_snoc)
  have "mapSet (hunk_file h) ?e (groupedByFile prev)
      = map (\<lambda>f. (f, if f = hunk_file h then ?e else entryOf prev f)) ?ks"
    unfolding groupedByFile_def by (rule mapSet_present [OF k distinct_newSet])
  also have "\<dots> = map (\<lambda>f. (f, entryOf (prev @ [h]) f)) ?ks"
    using entryOf_more [OF True] by (intro map_cong) (auto simp: entryOf_other)
  also have "\<dots> = groupedByFile (prev @ [h])"
    unfolding groupedByFile_def ks ..
  finally show ?thesis
    by (simp add: g orElse_def)
next
  case False
  let ?ks = "newSet (map hunk_file prev)"
  from False have k: "hunk_file h \<notin> set ?ks"
    by (simp add: set_newSet)
  have g: "mapGet (groupedByFile prev) (hunk_file h) = None"
    using k by (simp add: groupedByFile_def mapGet_keyed)
  have ks: "newSet (map hunk_file (prev @ [h])) = ?ks @ [hunk_file h]"
    using False by (simp add: newSet_snoc)
  have "mapSet (hunk_file h) (fileHeader h, [hunkLines h]) (groupedByFile prev)
      = map (\<lambda>f. (f, entryOf prev f)) ?ks @ [(hunk_file h, (fileHeader h, [hunkLines h]))]"
    unfolding groupedByFile_def by (rule mapSet_absent [OF k])
  also have "map (\<lambda>f. (f, entryOf prev f)) ?ks = map (\<lambda>f. (f, entryOf (prev @ [h]) f)) ?ks"
  proof (intro map_cong refl)
    fix f assume "f \<in> set ?ks"
    with k have "f \<noteq> hunk_file h" by blast
    then show "(f, entryOf prev f) = (f, entryOf (prev @ [h]) f)"
      by (simp add: entryOf_other)
  qed
  also have "map (\<lambda>f. (f, entryOf (prev @ [h]) f)) ?ks @ [(hunk_file h, (fileHeader h, [hunkLines h]))]
      = groupedByFile (prev @ [h])"
    unfolding groupedByFile_def ks using entryOf_new [OF False] by simp
  finally show ?thesis
    by (simp add: g orElse_def)
qed

lemma groupHunks_grouped:
  "\<forall>i \<in> set ids. byId i \<noteq> None \<Longrightarrow>
     groupHunks byId ids (groupedByFile prev)
       = Inr (groupedByFile (prev @ map (\<lambda>i. the (byId i)) ids))"
proof (induction ids arbitrary: prev)
  case Nil
  show ?case by simp
next
  case (Cons i ids)
  then obtain h where h: "byId i = Some h" by auto
  have "groupHunks byId (i # ids) (groupedByFile prev)
      = groupHunks byId ids (groupedByFile (prev @ [h]))"
    using h by (simp add: Let_def groupedByFile_step)
  also have "\<dots> = Inr (groupedByFile ((prev @ [h]) @ map (\<lambda>i. the (byId i)) ids))"
    using Cons.prems by (intro Cons.IH) simp
  finally show ?case using h by simp
qed

lemma replace_no_newline:
  "10 \<notin> set w \<Longrightarrow> replaceNewlineRuns (w @ rest) = w @ replaceNewlineRuns rest"
  by (induction w) auto

lemma dropWhile_newlines:
  fixes rest :: jsstring
  shows "take 1 rest \<noteq> [10] \<Longrightarrow> dropWhile (\<lambda>d. d = 10) (replicate n 10 @ rest) = rest"
proof (induction n)
  case 0
  then show ?case by (cases rest) auto
next
  case (Suc n)
  then show ?case by simp
qed

lemma replace_run:
  assumes "take 1 rest \<noteq> [10]"
  shows "replaceNewlineRuns (replicate n 10 @ rest)
     = replicate (if 3 \<le> n then 2 else n) 10 @ replaceNewlineRuns rest"
proof -
  have r0: "take 2 rest \<noteq> [10, 10]"
    using assms by (cases rest) auto
  have r1: "take 2 (10 # rest) \<noteq> [10, 10]"
    using assms by (cases rest) auto
  consider "n = 0" | "n = 1" | "n = 2" | m where "n = Suc (Suc (Suc m))"
    by (metis One_nat_def Suc_1 not0_implies_Suc)
  then show ?thesis
  proof cases
    case 1
    then show ?thesis by simp
  next
    case 2
    with r0 show ?thesis by simp
  next
    case 3
    then have "replicate n (10::nat) = [10, 10]" by (simp add: numeral_2_eq_2)
    with 3 r0 r1 assms show ?thesis by simp
  next
    case (4 m)
    have "replaceNewlineRuns (replicate n 10 @ rest)
        = [10, 10] @ replaceNewlineRuns (dropWhile (\<lambda>d. d = 10) (replicate (Suc (Suc m)) 10 @ rest))"
      using 4 by simp
    also have "\<dots> = [10, 10] @ replaceNewlineRuns rest"
      using dropWhile_newlines [OF assms] by simp
    finally show ?thesis using 4 by (simp add: numeral_2_eq_2)
  qed
qed

lemma flattenRuns_Cons:
  "flattenRuns ((w, n) # segs) = w @ replicate n 10 @ flattenRuns segs"
  by (simp add: flattenRuns_def)

lemma flattenRuns_start:
  "list_all (\<lambda>(w, n). 10 \<notin> set w) segs \<Longrightarrow> list_all (\<lambda>(w, n). w \<noteq> []) segs \<Longrightarrow>
     take 1 (flattenRuns segs) \<noteq> [10]"
proof (cases segs)
  case Nil
  then show ?thesis by (simp add: flattenRuns_def)
next
  case (Cons a segs')
  assume a: "list_all (\<lambda>(w, n). 10 \<notin> set w) segs" "list_all (\<lambda>(w, n). w \<noteq> []) segs"
  obtain w n where wn: "a = (w, n)" by (cases a)
  with a Cons obtain c w' where "w = c # w'" "c \<noteq> 10" by (cases w) auto
  with Cons wn show ?thesis by (simp add: flattenRuns_Cons)
qed

lemma replace_segments:
  "list_all (\<lambda>(w, n). 10 \<notin> set w) segs \<Longrightarrow> list_all (\<lambda>(w, n). w \<noteq> []) (tl segs) \<Longrightarrow>
     replaceNewlineRuns (flattenRuns segs)
       = flattenRuns (map (\<lambda>(w, n). (w, if 3 \<le> n then 2 else n)) segs)"
proof (induction segs)
  case Nil
  show ?case by (simp add: flattenRuns_def)
next
  case (Cons a segs)
  obtain w n where wn: "a = (w, n)" by (cases a)
  from Cons.prems wn have w: "10 \<notin> set w" and all: "list_all (\<lambda>(w, n). 10 \<notin> set w) segs"
    and ne: "list_all (\<lambda>(w, n). w \<noteq> []) segs"
    by simp_all
  have tl: "list_all (\<lambda>(w, n). w \<noteq> []) (tl segs)"
    using ne by (cases segs) simp_all
  have start: "take 1 (flattenRuns segs) \<noteq> [10]"
    using all ne by (rule flattenRuns_start)
  have "replaceNewlineRuns (flattenRuns (a # segs))
      = w @ replaceNewlineRuns (replicate n 10 @ flattenRuns segs)"
    unfolding wn flattenRuns_Cons using w by (rule replace_no_newline)
  also have "\<dots> = w @ replicate (if 3 \<le> n then 2 else n) 10 @ replaceNewlineRuns (flattenRuns segs)"
    using replace_run [OF start] by simp
  also have "replaceNewlineRuns (flattenRuns segs)
      = flattenRuns (map (\<lambda>(w, n). (w, if 3 \<le> n then 2 else n)) segs)"
    using all tl by (rule Cons.IH)
  finally show ?case
    by (simp add: wn flattenRuns_Cons)
qed

lemma stageHunks_applies_patch:
  assumes "groupHunks byId (hunks c) [] = Inr pbf" and "trim (buildPatchText pbf) \<noteq> []"
  shows "\<exists>ok. snd (snd (stageHunks git byId c s))
     = snd s @ [(applyArgs, Some (buildPatchText pbf), ok)]"
proof (cases "git (fst s) applyArgs (Some (buildPatchText pbf))")
  case (Pair r w)
  with assms show ?thesis
    by (cases r) (auto simp: stageHunks_def runGitWithStdin_def spawnGit_def)
qed

text \<open>
  Claim C5, as stated, fails: for a hunk with three blank lines in a row, the patch text
  keeps one blank line, where collapsing three or more blank lines to exactly two would
  keep two.
\<close>

theorem blank_lines_counterexample:
  "groupHunks (hunkById [blankLinesHunk]) [str ''h1''] [] = Inr blankLinesExample
   \<and> buildPatchText blankLinesExample
       = str ''diff --git a/f b/f'' @ [10] @ str ''@@ -1,5 +1,5 @@'' @ [10, 10] @ str ''+x'' @ [10]
   \<and> specPatchText blankLinesExample
       = str ''diff --git a/f b/f'' @ [10] @ str ''@@ -1,5 +1,5 @@'' @ [10, 10, 10] @ str ''+x''
         @ [10]
   \<and> buildPatchText blankLinesExample \<noteq> specPatchText blankLinesExample"
proof -
  have g: "groupHunks (hunkById [blankLinesHunk]) [str ''h1''] [] = Inr blankLinesExample"
    by (simp add: hunkById_def newMap_def mapGet_def blankLinesHunk_def blankLinesExample_def
        orElse_def)
  have b: "buildPatchText blankLinesExample
       = str ''diff --git a/f b/f'' @ [10] @ str ''@@ -1,5 +1,5 @@'' @ [10, 10] @ str ''+x'' @ [10]"
    by (simp add: buildPatchText_def patchParts_def blankLinesExample_def)
  have p: "specPatchText blankLinesExample
       = str ''diff --git a/f b/f'' @ [10] @ str ''@@ -1,5 +1,5 @@'' @ [10, 10, 10] @ str ''+x''
         @ [10]"
    by (simp add: specPatchText_def patchParts_def blankLinesExample_def)
  have "buildPatchText blankLinesExample \<noteq> specPatchText blankLinesExample"
    unfolding b p by simp
  with g b p show ?thesis by blast
qed

text \<open>
  Claim C5, amended. When every hunk id of a commit is known, its hunks are grouped by
  file, the files in the order of their first hunk, each with the header of its first hunk
  and the line blocks of its hunks in the order of the commit. The patch text is the
  parts joined by line feeds, the parts being, file after file, the header, each line
  block, and an empty part; in it every longest run of three or more line feeds is
  replaced by exactly two line feeds, so that no two blank lines follow each other, and
  nothing else is changed. When it is not blank, it is the standard input of the one
  \<open>git apply\<close> call that stages the hunks of the commit.
\<close>

theorem patch_text_built_and_collapsed:
  "((\<forall>i \<in> set (hunks c). byId i \<noteq> None) \<longrightarrow>
      groupHunks byId (hunks c) [] = Inr (groupedByFile (map (\<lambda>i. the (byId i)) (hunks c))))
   \<and> buildPatchText pbf
       = replaceNewlineRuns (join [10]
           (concat (map (\<lambda>(f, e). join [10] (fst e) # map (join [10]) (snd e) @ [[]]) pbf)))
   \<and> (wellSegmented segs \<longrightarrow>
        replaceNewlineRuns (flattenRuns segs)
          = flattenRuns (map (\<lambda>(w, n). (w, if 3 \<le> n then 2 else n)) segs))
   \<and> (groupHunks byId (hunks c) [] = Inr pbf \<and> trim (buildPatchText pbf) \<noteq> [] \<longrightarrow>
        (\<exists>ok. snd (snd (stageHunks git byId c s))
           = snd s @ [(applyArgs, Some (buildPatchText pbf), ok)]))"
proof (intro conjI impI)
  assume "\<forall>i \<in> set (hunks c). byId i \<noteq> None"
  from groupHunks_grouped [OF this, of "[]"]
  show "groupHunks byId (hunks c) [] = Inr (groupedByFile (map (\<lambda>i. the (byId i)) (hunks c)))"
    by (simp add: groupedByFile_def)
next
  show "buildPatchText pbf
       = replaceNewlineRuns (join [10]
           (concat (map (\<lambda>(f, e). join [10] (fst e) # map (join [10]) (snd e) @ [[]]) pbf)))"
    by (simp add: buildPatchText_def patchParts_def)
next
  assume "wellSegmented segs"
  then show "replaceNewlineRuns (flattenRuns segs)
          = flattenRuns (map (\<lambda>(w, n). (w, if 3 \<le> n then 2 else n)) segs)"
    by (simp add: wellSegmented_def replace_segments)
next
  assume "groupHunks byId (hunks c) [] = Inr pbf \<and> trim (buildPatchText pbf) \<noteq> []"
  then show "\<exists>ok. snd (snd (stageHunks git byId c s))
           = snd s @ [(applyArgs, Some (buildPatchText pbf), ok)]"
    using stageHunks_applies_patch by blast
qed

theorem patch_text_built_and_collapsed_witness:
  "replaceNewlineRuns (str ''a'' @ [10, 10, 10, 10] @ str ''b'' @ [10, 10] @ str ''c'' @ [10])
     = str ''a'' @ [10, 10] @ str ''b'' @ [10, 10] @ str ''c'' @ [10]
   \<and> groupHunks (hunkById [blankLinesHunk]) [str ''h1''] []
     = Inr (groupedByFile [blankLinesHunk])"
proof
  let ?segs = "[(str ''a'', Suc (Suc (Suc (Suc 0)))), (str ''b'', Suc (Suc 0)), (str ''c'', Suc 0)]"
  have w: "wellSegmented ?segs"
    by (simp add: wellSegmented_def)
  have "replaceNewlineRuns (flattenRuns ?segs)
          = flattenRuns (map (\<lambda>(w, n). (w, if 3 \<le> n then 2 else n)) ?segs)"
    using patch_text_built_and_collapsed [where segs = ?segs] w by blast
  then show "replaceNewlineRuns (str ''a'' @ [10, 10, 10, 10] @ str ''b'' @ [10, 10] @ str ''c'' @ [10])
     = str ''a'' @ [10, 10] @ str ''b'' @ [10, 10] @ str ''c'' @ [10]"
    by (simp add: flattenRuns_def numeral_2_eq_2)
next
  let ?c = "\<lparr>message = str ''fix: x'', body = None, hunks = [str ''h1''], ops = None\<rparr>"
  have k: "\<forall>i \<in> set (hunks ?c). hunkById [blankLinesHunk] i \<noteq> None"
    by (simp add: hunkById_def newMap_def mapGet_def blankLinesHunk_def)
  have t: "the (hunkById [blankLinesHunk] (str ''h1'')) = blankLinesHunk"
    by (simp add: hunkById_def newMap_def mapGet_def blankLinesHunk_def)
  have "groupHunks (hunkById [blankLinesHunk]) (hunks ?c) []
      = Inr (groupedByFile (map (\<lambda>i. the (hunkById [blankLinesHunk] i)) (hunks ?c)))"
    using patch_text_built_and_collapsed [where c = ?c and byId = "hunkById [blankLinesHunk]"] k
    by blast
  then show "groupHunks (hunkById [blankLinesHunk]) [str ''h1''] []
     = Inr (groupedByFile [blankLinesHunk])"
    using t by simp
qed

end
